theory Spec2Isabelle
  imports Main "HOL-Library.Word" "HOL-Library.Monad_Syntax"
begin

unbundle bit_operations_syntax

section \<open>Machine model\<close>

text \<open>
  The allocator of \<^verbatim>\<open>mm.c\<close> works on raw memory. Pointers, \<^verbatim>\<open>size_t\<close> and
  \<^verbatim>\<open>word_t\<close> are 64-bit words, so pointer and size arithmetic wraps as on the machine.
  Memory is a total map from addresses to bytes; a header, a footer or a list link is
  eight bytes read and written in little-endian order. The nil pointer is the word 0;
  reading through it is not trapped (the model reads the bytes at that address).
\<close>

type_synonym word_t = "64 word"
type_synonym size_t = "64 word"
type_synonym addr = "64 word"
type_synonym byte = "8 word"
type_synonym memory = "addr \<Rightarrow> byte"

definition byte_of :: "word_t \<Rightarrow> nat \<Rightarrow> byte" where
  "byte_of w i = ucast (drop_bit (8 * i) w)"

definition store64 :: "memory \<Rightarrow> addr \<Rightarrow> word_t \<Rightarrow> memory" where
  "store64 m a w = (\<lambda>x. if x - a < 8 then byte_of w (unat (x - a)) else m x)"

definition load64 :: "memory \<Rightarrow> addr \<Rightarrow> word_t" where
  "load64 m a =
     ucast (m a) OR push_bit 8 (ucast (m (a + 1))) OR push_bit 16 (ucast (m (a + 2)))
     OR push_bit 24 (ucast (m (a + 3))) OR push_bit 32 (ucast (m (a + 4)))
     OR push_bit 40 (ucast (m (a + 5))) OR push_bit 48 (ucast (m (a + 6)))
     OR push_bit 56 (ucast (m (a + 7)))"

text \<open>Headers, footers and links lie at multiples of 8; block headers lie at addresses
  that are 8 modulo 16, so that payloads are 16-byte aligned.\<close>

definition aligned8 :: "addr \<Rightarrow> bool" where
  "aligned8 a = (a AND 7 = 0)"

definition hdr_aligned :: "addr \<Rightarrow> bool" where
  "hdr_aligned a = (a AND 15 = 8)"

text \<open>
  Modelled from the spec: the byte operations \<^verbatim>\<open>memcpy(dst, src, n)\<close> and
  \<^verbatim>\<open>memset(dst, byte, n)\<close> of the memory provider, which is not part of the sources.
  \<^verbatim>\<open>memcpy\<close> copies from the memory as it was before the call (the C function is only
  defined for regions that do not overlap).
\<close>

definition memcpy :: "memory \<Rightarrow> addr \<Rightarrow> addr \<Rightarrow> size_t \<Rightarrow> memory" where
  "memcpy m dst src n = (\<lambda>x. if x - dst < n then m (src + (x - dst)) else m x)"

definition memset :: "memory \<Rightarrow> addr \<Rightarrow> byte \<Rightarrow> size_t \<Rightarrow> memory" where
  "memset m dst c n = (\<lambda>x. if x - dst < n then c else m x)"

text \<open>
  The globals of \<^verbatim>\<open>mm.c\<close> (\<^verbatim>\<open>heap_start\<close>, \<^verbatim>\<open>seg_list\<close>, \<^verbatim>\<open>mini_list\<close>) together with
  the memory and the three variables of the memory provider: the base of the heap, the
  current break and the highest address the break may reach.
\<close>

record state =
  mem :: memory
  heap_start :: addr
  seg_list :: "addr list"
  mini_list :: addr
  mem_heap :: addr
  mem_brk :: addr
  mem_max_addr :: addr

text \<open>
  Modelled from the spec: the provider's \<^verbatim>\<open>sbrk(delta)\<close> extends the heap by
  \<^verbatim>\<open>delta\<close> bytes and returns the low address of the new region, or the all-ones
  sentinel when it refuses; \<^verbatim>\<open>heap_lo\<close> and \<^verbatim>\<open>heap_hi\<close> are the inclusive bounds of the
  committed heap. The provider refuses an extension that would move the break beyond
  its highest address (a delta that is negative as \<^verbatim>\<open>intptr_t\<close> always does).
\<close>

definition mem_sbrk :: "state \<Rightarrow> size_t \<Rightarrow> addr \<times> state" where
  "mem_sbrk s incr =
     (let old_brk = mem_brk s
      in if unat (mem_max_addr s) < unat (mem_brk s) + unat incr then (- 1, s)
         else (old_brk, s\<lparr>mem_brk := mem_brk s + incr\<rparr>))"

definition mem_heap_lo :: "state \<Rightarrow> addr" where
  "mem_heap_lo s = mem_heap s"

definition mem_heap_hi :: "state \<Rightarrow> addr" where
  "mem_heap_hi s = mem_brk s - 1"

section \<open>Constants and short helper functions\<close>

definition LENGTH_seg :: nat where
  "LENGTH_seg = 14"

definition wsize :: size_t where
  "wsize = 8"

definition dsize :: size_t where
  "dsize = 2 * wsize"

definition min_block_size :: size_t where
  "min_block_size = dsize"

definition chunksize :: size_t where
  "chunksize = push_bit 12 1"

definition alloc_mask :: word_t where
  "alloc_mask = 0x1"

definition prev_alloc_mask :: word_t where
  "prev_alloc_mask = 0x2"

definition prev_mini_mask :: word_t where
  "prev_mini_mask = 0x4"

definition size_mask :: word_t where
  "size_mask = NOT 0xF"

definition max_size :: "size_t \<Rightarrow> size_t \<Rightarrow> size_t" where
  "max_size x y = (if x > y then x else y)"

definition round_up :: "size_t \<Rightarrow> size_t \<Rightarrow> size_t" where
  "round_up sz n = n * ((sz + (n - 1)) div n)"

definition pack_all :: "size_t \<Rightarrow> bool \<Rightarrow> bool \<Rightarrow> bool \<Rightarrow> word_t" where
  "pack_all sz alloc prev_alloc prev_mini =
     (let word = sz;
          word = (if alloc then word OR alloc_mask else word);
          word = (if prev_alloc then word OR prev_alloc_mask else word);
          word = (if prev_mini then word OR prev_mini_mask else word)
      in word)"

definition extract_size :: "word_t \<Rightarrow> size_t" where
  "extract_size word = word AND size_mask"

definition header :: "state \<Rightarrow> addr \<Rightarrow> word_t" where
  "header s block = load64 (mem s) block"

definition get_size :: "state \<Rightarrow> addr \<Rightarrow> size_t" where
  "get_size s block = extract_size (header s block)"

definition payload_to_header :: "addr \<Rightarrow> addr" where
  "payload_to_header bp = bp - 8"

definition header_to_payload :: "addr \<Rightarrow> addr" where
  "header_to_payload block = block + 8"

definition header_to_footer :: "state \<Rightarrow> addr \<Rightarrow> addr" where
  "header_to_footer s block = (block + 8) + get_size s block - dsize"

definition footer_to_header :: "state \<Rightarrow> addr \<Rightarrow> addr" where
  "footer_to_header s footer = footer + wsize - extract_size (load64 (mem s) footer)"

definition extract_alloc :: "word_t \<Rightarrow> bool" where
  "extract_alloc word = (word AND alloc_mask \<noteq> 0)"

definition get_alloc :: "state \<Rightarrow> addr \<Rightarrow> bool" where
  "get_alloc s block = extract_alloc (header s block)"

definition get_prev_alloc :: "state \<Rightarrow> addr \<Rightarrow> bool" where
  "get_prev_alloc s block = (drop_bit 1 (header s block AND prev_alloc_mask) \<noteq> 0)"

definition get_prev_mini :: "state \<Rightarrow> addr \<Rightarrow> bool" where
  "get_prev_mini s block = (drop_bit 2 (header s block AND prev_mini_mask) \<noteq> 0)"

text \<open>The link fields: \<^verbatim>\<open>payload.prev\<close> lies 8 bytes and \<^verbatim>\<open>payload.next\<close> 16 bytes after
  the header of a \<^verbatim>\<open>block_t\<close>; the \<^verbatim>\<open>next\<close> field of a \<^verbatim>\<open>mini_block_t\<close> lies 8 bytes
  after its header.\<close>

definition payload_prev :: "state \<Rightarrow> addr \<Rightarrow> addr" where
  "payload_prev s block = load64 (mem s) (block + 8)"

definition payload_next :: "state \<Rightarrow> addr \<Rightarrow> addr" where
  "payload_next s block = load64 (mem s) (block + 16)"

definition mini_next :: "state \<Rightarrow> addr \<Rightarrow> addr" where
  "mini_next s block = load64 (mem s) (block + 8)"

definition set_header :: "state \<Rightarrow> addr \<Rightarrow> word_t \<Rightarrow> state" where
  "set_header s block w = s\<lparr>mem := store64 (mem s) block w\<rparr>"

definition set_payload_prev :: "state \<Rightarrow> addr \<Rightarrow> addr \<Rightarrow> state" where
  "set_payload_prev s block p = s\<lparr>mem := store64 (mem s) (block + 8) p\<rparr>"

definition set_payload_next :: "state \<Rightarrow> addr \<Rightarrow> addr \<Rightarrow> state" where
  "set_payload_next s block p = s\<lparr>mem := store64 (mem s) (block + 16) p\<rparr>"

definition set_mini_next :: "state \<Rightarrow> addr \<Rightarrow> addr \<Rightarrow> state" where
  "set_mini_next s block p = s\<lparr>mem := store64 (mem s) (block + 8) p\<rparr>"

definition write_epilogue :: "state \<Rightarrow> addr \<Rightarrow> bool \<Rightarrow> bool \<Rightarrow> state" where
  "write_epilogue s block prev_alloc prev_mini =
     set_header s block (pack_all 0 True prev_alloc prev_mini)"

definition find_next :: "state \<Rightarrow> addr \<Rightarrow> addr" where
  "find_next s block = block + get_size s block"

definition write_pack :: "state \<Rightarrow> addr \<Rightarrow> size_t \<Rightarrow> bool \<Rightarrow> bool \<Rightarrow> bool \<Rightarrow> state" where
  "write_pack s block sz alloc prev_alloc prev_mini =
     (let s1 = set_header s block (pack_all sz alloc prev_alloc prev_mini)
      in if \<not> alloc \<and> \<not> (sz = min_block_size) then
           (let footerp = header_to_footer s1 block
            in s1\<lparr>mem := store64 (mem s1) footerp (pack_all sz alloc prev_alloc prev_mini)\<rparr>)
         else s1)"

definition is_mini_block :: "state \<Rightarrow> addr \<Rightarrow> bool" where
  "is_mini_block s block = (get_size s block = min_block_size)"

definition write_prev_alloc :: "state \<Rightarrow> addr \<Rightarrow> bool \<Rightarrow> state" where
  "write_prev_alloc s block prev_alloc =
     (let s1 = (if prev_alloc then set_header s block (header s block OR prev_alloc_mask) else s);
          alloc = get_alloc s1 block;
          is_mini = is_mini_block s1 block
      in if \<not> alloc \<and> \<not> is_mini then
           (let footer = header_to_footer s1 block
            in if prev_alloc
               then s1\<lparr>mem := store64 (mem s1) footer (load64 (mem s1) footer OR prev_alloc_mask)\<rparr>
               else s1)
         else s1)"

definition find_prev_footer :: "addr \<Rightarrow> addr" where
  "find_prev_footer block = block - 8"

definition find_prev :: "state \<Rightarrow> addr \<Rightarrow> addr" where
  "find_prev s block =
     (let prev_mini = get_prev_mini s block
      in if \<not> prev_mini then
           (let footerp = find_prev_footer block;
                not_head = extract_size (load64 (mem s) footerp)
            in if not_head = 0 then 0 else footer_to_header s footerp)
         else block - min_block_size)"

section \<open>Free lists\<close>

definition find_class :: "size_t \<Rightarrow> nat" where
  "find_class asize =
     (if asize < 32 then 0
      else if asize < 64 then 1
      else if asize < 128 then 2
      else if asize < 256 then 3
      else if asize < 512 then 4
      else if asize < 1024 then 5
      else if asize < 2048 then 6
      else if asize < 3072 then 7
      else if asize < 4096 then 8
      else if asize < 6656 then 9
      else if asize < 8192 then 10
      else if asize < 16384 then 11
      else if asize < 32768 then 12
      else 13)"

definition is_head :: "state \<Rightarrow> addr \<Rightarrow> int" where
  "is_head s block =
     (let class = find_class (get_size s block);
          curr = seg_list s ! class
      in if block = curr then int class else - 1)"

definition insert_free :: "state \<Rightarrow> addr \<Rightarrow> state" where
  "insert_free s block =
     (if is_mini_block s block then
        (let curr_mini = block
         in if mini_list s \<noteq> 0 then
              (let s1 = set_mini_next s curr_mini (mini_list s)
               in s1\<lparr>mini_list := curr_mini\<rparr>)
            else
              (let s1 = s\<lparr>mini_list := curr_mini\<rparr>
               in set_mini_next s1 (mini_list s1) 0))
      else
        (let class = find_class (get_size s block);
             curr = seg_list s ! class;
             s1 = s\<lparr>seg_list := (seg_list s)[class := block]\<rparr>
         in if curr \<noteq> 0 then
              (let s2 = set_payload_prev s1 curr block
               in set_payload_next s2 block curr)
            else
              (let s2 = set_payload_next s1 block 0
               in set_payload_prev s2 block 0)))"

text \<open>The search loop of \<^verbatim>\<open>remove_free\<close> for the predecessor of a mini block; it does
  not return when the block is not on the list.\<close>

partial_function (option) mini_pred :: "state \<Rightarrow> addr \<Rightarrow> addr \<Rightarrow> addr option" where
  "mini_pred s cur mini_block =
     (if mini_next s cur \<noteq> mini_block then mini_pred s (mini_next s cur) mini_block
      else Some cur)"

declare mini_pred.simps [code]

definition remove_free :: "state \<Rightarrow> addr \<Rightarrow> state option" where
  "remove_free s block =
     (if is_mini_block s block then
        (let mini_block = block
         in if mini_next s (mini_list s) = 0 then Some (s\<lparr>mini_list := 0\<rparr>)
            else if mini_block = mini_list s then
              Some (s\<lparr>mini_list := mini_next s (mini_list s)\<rparr>)
            else
              do { curr \<leftarrow> mini_pred s (mini_list s) mini_block;
                   Some (set_mini_next s curr (mini_next s mini_block)) })
      else
        (let prev = payload_prev s block;
             next = payload_next s block;
             head_ind = is_head s block;
             head = (if head_ind = - 1 then False else True);
             tail = (payload_next s block = 0)
         in if head then
              (let class = nat head_ind
               in Some (s\<lparr>seg_list := (seg_list s)[class := payload_next s block]\<rparr>))
            else if tail then Some (set_payload_next s prev 0)
            else if \<not> head \<and> \<not> tail then
              (let s1 = set_payload_next s prev next
               in Some (set_payload_prev s1 next prev))
            else Some s))"

section \<open>Coalescing, extending, splitting, fitting\<close>

definition coalesce_block :: "state \<Rightarrow> addr \<Rightarrow> (addr \<times> state) option" where
  "coalesce_block s block =
     (let current_size = get_size s block;
          prev_alloc = get_prev_alloc s block;
          prev = (if \<not> prev_alloc then find_prev s block else 0);
          next = find_next s block;
          next_alloc = get_alloc s next;
          next_size = get_size s next
      in if prev_alloc \<and> next_alloc then
           (let s1 = write_pack s next next_size True False (is_mini_block s block);
                s2 = insert_free s1 block
            in Some (block, s2))
         else if \<not> prev_alloc \<and> next_alloc then
           do { s1 \<leftarrow> remove_free s prev;
                let total_size = current_size + get_size s1 prev;
                    prev_prev_alloc = get_prev_alloc s1 prev;
                    prev_prev_mini = get_prev_mini s1 prev;
                    s2 = write_pack s1 prev total_size False prev_prev_alloc prev_prev_mini;
                    s3 = write_pack s2 next next_size True False False;
                    s4 = insert_free s3 prev
                in Some (prev, s4) }
         else if prev_alloc \<and> \<not> next_alloc then
           do { s1 \<leftarrow> remove_free s next;
                let total_size = current_size + next_size;
                    prev_mini = get_prev_mini s1 block;
                    s2 = write_pack s1 block total_size False True prev_mini;
                    next_next = find_next s2 next;
                    next_next_size = get_size s2 next_next;
                    next_next_alloc = get_alloc s2 next_next;
                    s3 = write_pack s2 next_next next_next_size next_next_alloc False False;
                    s4 = insert_free s3 block
                in Some (block, s4) }
         else
           do { s1 \<leftarrow> remove_free s prev;
                s2 \<leftarrow> remove_free s1 next;
                let total_size = current_size + get_size s2 prev + get_size s2 next;
                    prev_prev_alloc = get_prev_alloc s2 prev;
                    prev_prev_mini = get_prev_mini s2 prev;
                    s3 = write_pack s2 prev total_size False prev_prev_alloc prev_prev_mini;
                    next_next = find_next s3 next;
                    next_next_size = get_size s3 next_next;
                    next_next_alloc = get_alloc s3 next_next;
                    s4 = write_pack s3 next_next next_next_size next_next_alloc False False;
                    s5 = insert_free s4 prev
                in Some (prev, s5) })"

definition extend_heap :: "state \<Rightarrow> size_t \<Rightarrow> (addr \<times> state) option" where
  "extend_heap s sz0 =
     (let sz = round_up sz0 dsize;
          (bp, s1) = mem_sbrk s sz
      in if bp = - 1 then Some (0, s1)
         else
           (let block = payload_to_header bp;
                prev_alloc = get_prev_alloc s1 block;
                prev_mini = get_prev_mini s1 block;
                s2 = write_pack s1 block sz False prev_alloc prev_mini;
                block_next = find_next s2 block;
                s3 = write_epilogue s2 block_next (get_alloc s2 block) (is_mini_block s2 block)
            in coalesce_block s3 block))"

definition split_block :: "state \<Rightarrow> addr \<Rightarrow> size_t \<Rightarrow> addr \<times> state" where
  "split_block s block asize =
     (let block_size = get_size s block;
          prev_alloc = get_prev_alloc s block;
          prev_mini = get_prev_mini s block
      in if block_size - asize \<ge> min_block_size then
           (let s1 = write_pack s block asize True prev_alloc prev_mini;
                block_next = find_next s1 block;
                s2 = write_pack s1 block_next (block_size - asize) False True
                       (asize = min_block_size);
                next_next = find_next s2 block_next;
                s3 = write_prev_alloc s2 next_next False
            in (block_next, s3))
         else (0, s))"

text \<open>The inner \<^verbatim>\<open>while\<close> loop of \<^verbatim>\<open>find_fit\<close> over one bucket either returns from the
  function with the best block so far, or runs off the end of the list and hands the
  best block (possibly nil) to the code after the loop. It does not return on a
  circular list without a fitting pair.\<close>

datatype scan_result = Return addr | Finished addr

partial_function (option) find_fit_scan ::
  "state \<Rightarrow> size_t \<Rightarrow> addr \<Rightarrow> addr \<Rightarrow> scan_result option" where
  "find_fit_scan s asize best block =
     (if block \<noteq> 0 then
        (if \<not> get_alloc s block \<and> asize \<le> get_size s block then
           (if best = 0 then find_fit_scan s asize block (payload_next s block)
            else if get_size s block < get_size s best then
              find_fit_scan s asize block (payload_next s block)
            else Some (Return best))
         else find_fit_scan s asize best (payload_next s block))
      else Some (Finished best))"

declare find_fit_scan.simps [code]

function find_fit_from :: "state \<Rightarrow> size_t \<Rightarrow> nat \<Rightarrow> addr option" where
  "find_fit_from s asize i =
     (if i < LENGTH_seg then
        (case find_fit_scan s asize 0 (seg_list s ! i) of
           None \<Rightarrow> None
         | Some (Return best) \<Rightarrow> Some best
         | Some (Finished best) \<Rightarrow>
             if best \<noteq> 0 then Some best else find_fit_from s asize (i + 1))
      else Some 0)"
  by pat_completeness auto
termination
  by (relation "measure (\<lambda>(s, asize, i). LENGTH_seg - i)") auto

definition find_fit :: "state \<Rightarrow> size_t \<Rightarrow> addr option" where
  "find_fit s asize =
     (if asize = min_block_size \<and> mini_list s \<noteq> 0 then Some (mini_list s)
      else (let class = find_class asize in find_fit_from s asize class))"

section \<open>The public interface\<close>

definition mm_init :: "state \<Rightarrow> (bool \<times> state) option" where
  "mm_init s =
     (let (start, s1) = mem_sbrk s (2 * wsize)
      in if start = - 1 then Some (False, s1)
         else
           (let s2 = s1\<lparr>seg_list := replicate LENGTH_seg 0\<rparr>;
                s3 = s2\<lparr>mini_list := 0\<rparr>;
                s4 = s3\<lparr>mem := store64 (mem s3) start (pack_all 0 True False False)\<rparr>;
                s5 = s4\<lparr>mem := store64 (mem s4) (start + 8) (pack_all 0 True True False)\<rparr>;
                s6 = s5\<lparr>heap_start := start + 8\<rparr>
            in do { (block, s7) \<leftarrow> extend_heap s6 chunksize;
                    if block = 0 then Some (False, s7) else Some (True, s7) }))"

definition mm_malloc :: "state \<Rightarrow> size_t \<Rightarrow> (addr \<times> state) option" where
  "mm_malloc s0 sz =
     do { (ok, s) \<leftarrow> (if heap_start s0 = 0 then mm_init s0 else Some (True, s0));
          if \<not> ok then Some (0, s)
          else if sz = 0 then Some (0, s)
          else
            (let asize = round_up (sz + wsize) dsize
             in do { found \<leftarrow> find_fit s asize;
                     (block, s1) \<leftarrow>
                        (if found = 0 then extend_heap s (max_size asize chunksize)
                         else Some (found, s));
                     if block = 0 then Some (0, s1)
                     else
                       do { s2 \<leftarrow> remove_free s1 block;
                            let block_size = get_size s2 block;
                                prev_alloc = get_prev_alloc s2 block;
                                prev_mini = get_prev_mini s2 block;
                                s3 = write_pack s2 block block_size True prev_alloc prev_mini;
                                next = find_next s3 block;
                                s4 = write_prev_alloc s3 next True;
                                (temp, s5) = split_block s4 block asize
                            in do { s6 \<leftarrow> (if temp \<noteq> 0
                                           then map_option snd (coalesce_block s5 temp)
                                           else Some s5);
                                    Some (header_to_payload block, s6) } } }) }"

definition mm_free :: "state \<Rightarrow> addr \<Rightarrow> state option" where
  "mm_free s bp =
     (if bp = 0 then Some s
      else
        (let block = payload_to_header bp;
             block_size = get_size s block;
             prev_alloc = get_prev_alloc s block;
             prev_mini = get_prev_mini s block;
             s1 = write_pack s block block_size False prev_alloc prev_mini;
             next = find_next s1 block;
             s2 = write_prev_alloc s1 next False
         in map_option snd (coalesce_block s2 block)))"

definition mm_realloc :: "state \<Rightarrow> addr \<Rightarrow> size_t \<Rightarrow> (addr \<times> state) option" where
  "mm_realloc s ptr sz =
     (let block = payload_to_header ptr
      in if sz = 0 then do { s1 \<leftarrow> mm_free s ptr; Some (0, s1) }
         else if ptr = 0 then mm_malloc s sz
         else
           do { (newptr, s1) \<leftarrow> mm_malloc s sz;
                if newptr = 0 then Some (0, s1)
                else
                  (let copysize = get_size s1 block - wsize;
                       copysize = (if sz < copysize then sz else copysize);
                       s2 = s1\<lparr>mem := memcpy (mem s1) newptr ptr copysize\<rparr>
                   in do { s3 \<leftarrow> mm_free s2 ptr; Some (newptr, s3) }) })"

definition mm_calloc :: "state \<Rightarrow> size_t \<Rightarrow> size_t \<Rightarrow> (addr \<times> state) option" where
  "mm_calloc s elements sz =
     (let asize = elements * sz
      in if elements = 0 then Some (0, s)
         else if asize div elements \<noteq> sz then Some (0, s)
         else
           do { (bp, s1) \<leftarrow> mm_malloc s asize;
                if bp = 0 then Some (0, s1)
                else Some (bp, s1\<lparr>mem := memset (mem s1) bp 0 asize\<rparr>) })"

section \<open>Notions used in the statements\<close>

text \<open>A bucket of the segregated list as the list of its blocks: the chain of
  \<^verbatim>\<open>payload.next\<close> links from the head to nil.\<close>

fun seg_chain :: "state \<Rightarrow> addr \<Rightarrow> addr list \<Rightarrow> bool" where
  "seg_chain s h [] = (h = 0)"
| "seg_chain s h (x # xs) = (h = x \<and> x \<noteq> 0 \<and> seg_chain s (payload_next s x) xs)"

text \<open>A block fits a request when it is free and large enough.\<close>

definition fits :: "state \<Rightarrow> size_t \<Rightarrow> addr \<Rightarrow> bool" where
  "fits s asize b = (\<not> get_alloc s b \<and> asize \<le> get_size s b)"

text \<open>The bounded best fit of the code over the fitting blocks of one bucket, in list
  order: the scan keeps going while every next candidate is strictly smaller than the
  best so far and halts at the first candidate that is not smaller.\<close>

fun descend :: "state \<Rightarrow> addr \<Rightarrow> addr list \<Rightarrow> addr" where
  "descend s best [] = best"
| "descend s best (c # cs) =
     (if get_size s c < get_size s best then descend s c cs else best)"

definition bucket_best :: "state \<Rightarrow> size_t \<Rightarrow> addr list \<Rightarrow> addr" where
  "bucket_best s asize xs =
     (case filter (fits s asize) xs of [] \<Rightarrow> 0 | c # cs \<Rightarrow> descend s c cs)"

fun first_found :: "addr list \<Rightarrow> addr" where
  "first_found [] = 0"
| "first_found (b # bs) = (if b \<noteq> 0 then b else first_found bs)"

text \<open>The same scan in the words of the specification: track the smallest fitting
  block and halt as soon as the current candidate is larger than the best so far.\<close>

fun spec_descend :: "state \<Rightarrow> addr \<Rightarrow> addr list \<Rightarrow> addr" where
  "spec_descend s best [] = best"
| "spec_descend s best (c # cs) =
     (if get_size s c > get_size s best then best
      else spec_descend s (if get_size s c < get_size s best then c else best) cs)"

definition spec_bucket_best :: "state \<Rightarrow> size_t \<Rightarrow> addr list \<Rightarrow> addr" where
  "spec_bucket_best s asize xs =
     (case filter (fits s asize) xs of [] \<Rightarrow> 0 | c # cs \<Rightarrow> spec_descend s c cs)"

section \<open>Example states\<close>

text \<open>The state before the first call: nothing is initialised, the provider offers the
  addresses from 0x1000 up to 0x100000, and memory is zero.\<close>

definition boot_state :: state where
  "boot_state =
     \<lparr>mem = (\<lambda>_. 0), heap_start = 0, seg_list = replicate 14 0, mini_list = 0,
      mem_heap = 0x1000, mem_brk = 0x1000, mem_max_addr = 0x100000\<rparr>"

text \<open>The heap as \<^verbatim>\<open>malloc\<close> hands it to \<^verbatim>\<open>split_block\<close> on the first request: one
  allocated block of 4096 bytes at 0x1008 and the epilogue at 0x2008, whose
  \<^verbatim>\<open>prev_alloc\<close> bit \<^verbatim>\<open>malloc\<close> has just set.\<close>

definition split_state :: state where
  "split_state =
     \<lparr>mem = store64 (store64 (store64 (\<lambda>_. 0) 0x1000 1) 0x1008 4099) 0x2008 3,
      heap_start = 0x1008, seg_list = replicate 14 0, mini_list = 0,
      mem_heap = 0x1000, mem_brk = 0x2010, mem_max_addr = 0x100000\<rparr>"

text \<open>A heap in which bucket 1 holds the free block at 0x1048 and the block at 0x1008
  (32 bytes, just marked free) still carries payload bytes of its last owner.\<close>

definition link_state :: state where
  "link_state =
     \<lparr>mem = store64 (store64 (store64 (store64 (store64 (store64 (\<lambda>_. 0)
               0x1008 34) 0x1010 42) 0x1020 34) 0x1028 33) 0x1048 34) 0x1060 34,
      heap_start = 0x1008, seg_list = (replicate 14 0)[1 := 0x1048], mini_list = 0,
      mem_heap = 0x1000, mem_brk = 0x2010, mem_max_addr = 0x100000\<rparr>"

text \<open>A heap whose bucket 2 holds, in list order, free blocks of 96, 96 and 64 bytes.\<close>

definition fit_state :: state where
  "fit_state =
     \<lparr>mem = store64 (store64 (store64 (store64 (store64 (\<lambda>_. 0)
               0x1008 98) 0x1018 0x1108) 0x1108 98) 0x1118 0x1208) 0x1208 66,
      heap_start = 0x1008, seg_list = (replicate 14 0)[2 := 0x1008], mini_list = 0,
      mem_heap = 0x1000, mem_brk = 0x2010, mem_max_addr = 0x100000\<rparr>"

section \<open>Traces of calls\<close>

text \<open>A client issues calls of the four public functions and keeps the pointers it
  was given, each with the size it asked for.\<close>

datatype call = Malloc size_t | Free addr | Realloc addr size_t | Calloc size_t size_t

type_synonym client = "addr \<rightharpoonup> size_t"

fun step :: "state \<times> client \<Rightarrow> call \<Rightarrow> (addr \<times> state \<times> client) option" where
  "step (s, L) (Malloc n) =
     do { (p, s') \<leftarrow> mm_malloc s n;
          Some (p, s', if p = 0 then L else L(p \<mapsto> n)) }"
| "step (s, L) (Free p) =
     do { s' \<leftarrow> mm_free s p;
          Some (0, s', L(p := None)) }"
| "step (s, L) (Realloc p n) =
     do { (q, s') \<leftarrow> mm_realloc s p n;
          Some (q, s', if n = 0 then L(p := None)
                       else if q = 0 then L
                       else (L(p := None))(q \<mapsto> n)) }"
| "step (s, L) (Calloc n sz) =
     do { (p, s') \<leftarrow> mm_calloc s n sz;
          Some (p, s', if p = 0 then L else L(p \<mapsto> n * sz)) }"

fun run :: "state \<times> client \<Rightarrow> call list \<Rightarrow> (state \<times> client) option" where
  "run w [] = Some w"
| "run w (c # cs) = do { (r, w') \<leftarrow> step w c; run w' cs }"

text \<open>A request is in range when adjusting it (adding the header word and rounding up
  to a multiple of 16) does not wrap around.\<close>

definition req_ok :: "size_t \<Rightarrow> bool" where
  "req_ok n = (unat n + 23 < 2 ^ 64)"

text \<open>The contract of the interface: only pointers that are live (returned and not yet
  freed) or nil are freed or reallocated. \<open>sizes_ok\<close> says in addition that every
  request is in range.\<close>

fun call_ok :: "client \<Rightarrow> call \<Rightarrow> bool" where
  "call_ok L (Malloc n) = True"
| "call_ok L (Free p) = (p = 0 \<or> L p \<noteq> None)"
| "call_ok L (Realloc p n) = (p = 0 \<or> L p \<noteq> None)"
| "call_ok L (Calloc n sz) = True"

fun sizes_ok :: "call \<Rightarrow> bool" where
  "sizes_ok (Malloc n) = req_ok n"
| "sizes_ok (Free p) = True"
| "sizes_ok (Realloc p n) = req_ok n"
| "sizes_ok (Calloc n sz) = ((n * sz) div n = sz \<longrightarrow> req_ok (n * sz))"

fun trace_ok :: "state \<times> client \<Rightarrow> call list \<Rightarrow> bool" where
  "trace_ok w [] = True"
| "trace_ok w (c # cs) =
     (call_ok (snd w) c \<and>
      (case step w c of None \<Rightarrow> True | Some (r, w') \<Rightarrow> trace_ok w' cs))"

text \<open>The state in which the first call arrives: the globals are zero, the break is at
  the base of the heap, and the base is 16-byte aligned.\<close>

definition boot_ok :: "state \<Rightarrow> bool" where
  "boot_ok s =
     (heap_start s = 0 \<and> mem_heap s AND 15 = 0 \<and> mem_brk s = mem_heap s \<and>
      mem_heap s \<le> mem_max_addr s)"

section \<open>The checks of the heap checker\<close>

text \<open>The loop of \<^verbatim>\<open>general_heap_checker\<close> visits the blocks from \<^verbatim>\<open>heap_start\<close> up to the
  epilogue, which lies 7 bytes below \<^verbatim>\<open>mem_heap_hi\<close>.\<close>

partial_function (option) heap_walk :: "state \<Rightarrow> addr \<Rightarrow> addr list option" where
  "heap_walk s cur =
     (if cur \<noteq> mem_heap_hi s - 7
      then do { rest \<leftarrow> heap_walk s (find_next s cur); Some (cur # rest) }
      else Some [])"

declare heap_walk.simps [code]

definition check_non_consecutive_free :: "state \<Rightarrow> addr \<Rightarrow> bool" where
  "check_non_consecutive_free s block =
     (let next = find_next s block;
          curr_alloc = get_alloc s block;
          next_alloc = get_alloc s next
      in if \<not> curr_alloc \<and> \<not> next_alloc then False else True)"

definition check_alignment :: "state \<Rightarrow> addr \<Rightarrow> bool" where
  "check_alignment s block = (unat (header_to_payload block) mod 16 = 0)"

definition check_boundary :: "state \<Rightarrow> addr \<Rightarrow> bool" where
  "check_boundary s block =
     (if block > mem_heap_hi s then False
      else if block < mem_heap_lo s then False
      else True)"

text \<open>Whether the header of the right neighbour records the block's allocation status
  and whether it is a mini block.\<close>

definition prev_flags_agree :: "state \<Rightarrow> addr \<Rightarrow> bool" where
  "prev_flags_agree s block =
     (get_prev_alloc s (find_next s block) = get_alloc s block \<and>
      get_prev_mini s (find_next s block) = (get_size s block = 16))"

text \<open>A property of every block of the heap, walked as the checker does; an
  uninitialised heap has no blocks.\<close>

definition all_blocks :: "(state \<Rightarrow> addr \<Rightarrow> bool) \<Rightarrow> state \<Rightarrow> bool" where
  "all_blocks P s =
     (if heap_start s = 0 then True
      else (case heap_walk s (heap_start s) of
              None \<Rightarrow> False
            | Some bs \<Rightarrow> list_all (P s) bs))"

section \<open>The heap as a list of blocks\<close>

text \<open>The invariant describes the committed heap as the list of its blocks in address
  order, the epilogue last. A block is given by its address, its size, and the three
  flags its header carries.\<close>

record blk =
  baddr :: nat
  bsize :: nat
  balloc :: bool
  bpa :: bool
  bpm :: bool

definition hdr_of :: "blk \<Rightarrow> word_t" where
  "hdr_of b = pack_all (of_nat (bsize b)) (balloc b) (bpa b) (bpm b)"

fun layout :: "nat \<Rightarrow> blk list \<Rightarrow> nat \<Rightarrow> bool" where
  "layout a [] e = False"
| "layout a [b] e = (baddr b = a \<and> bsize b = 0 \<and> balloc b \<and> e = a)"
| "layout a (b # bs) e =
     (baddr b = a \<and> 16 \<le> bsize b \<and> 16 dvd bsize b \<and> layout (a + bsize b) bs e)"

text \<open>A run of blocks that are not the epilogue, from one address to another.\<close>

fun seg :: "nat \<Rightarrow> blk list \<Rightarrow> nat \<Rightarrow> bool" where
  "seg a [] e = (e = a)"
| "seg a (b # bs) e =
     (baddr b = a \<and> 16 \<le> bsize b \<and> 16 dvd bsize b \<and> seg (a + bsize b) bs e)"

text \<open>\<open>touch s s' A\<close>: the memories of two states agree on every byte outside \<open>A\<close>.\<close>

definition touch :: "state \<Rightarrow> state \<Rightarrow> nat set \<Rightarrow> bool" where
  "touch s s' A = (\<forall>x. unat x \<notin> A \<longrightarrow> mem s' x = mem s x)"

text \<open>The headers of all blocks, and the footers of the free blocks that are not mini
  blocks, are in memory as the list says.\<close>

definition blocks_rel :: "state \<Rightarrow> blk list \<Rightarrow> bool" where
  "blocks_rel s bl =
     (16 dvd unat (mem_heap s) \<and> unat (heap_start s) = unat (mem_heap s) + 8 \<and>
      unat (mem_brk s) \<le> unat (mem_max_addr s) \<and> 8 \<le> unat (mem_brk s) \<and>
      layout (unat (heap_start s)) bl (unat (mem_brk s) - 8) \<and>
      (\<forall>b\<in>set bl. header s (of_nat (baddr b)) = hdr_of b \<and>
         (\<not> balloc b \<and> bsize b \<noteq> 16 \<longrightarrow>
            load64 (mem s) (of_nat (baddr b + bsize b - 8)) = hdr_of b)))"

fun prevs_ok :: "state \<Rightarrow> nat list \<Rightarrow> bool" where
  "prevs_ok s (x # y # ys) = (payload_prev s (of_nat y) = of_nat x \<and> prevs_ok s (y # ys))"
| "prevs_ok s ys = True"

fun mini_chain :: "state \<Rightarrow> addr \<Rightarrow> addr list \<Rightarrow> bool" where
  "mini_chain s h [] = (h = 0)"
| "mini_chain s h (x # xs) = (h = x \<and> x \<noteq> 0 \<and> mini_chain s (mini_next s x) xs)"

text \<open>\<open>free_at bl x sz\<close>: the list has a free block of size \<open>sz\<close> at address \<open>x\<close>.\<close>

definition free_at :: "blk list \<Rightarrow> nat \<Rightarrow> nat \<Rightarrow> bool" where
  "free_at bl x sz = (\<exists>b\<in>set bl. baddr b = x \<and> bsize b = sz \<and> \<not> balloc b)"

text \<open>A nil-terminated chain of links from a head.\<close>

fun chain :: "(addr \<Rightarrow> addr) \<Rightarrow> addr \<Rightarrow> addr list \<Rightarrow> bool" where
  "chain f h [] = (h = 0)"
| "chain f h (x # xs) = (h = x \<and> x \<noteq> 0 \<and> chain f (f x) xs)"

text \<open>Bucket \<open>i\<close> holds the list \<open>xs\<close>, and the mini list holds \<open>ml\<close>: they are in memory
  as a doubly and a singly linked list, and every listed address is a free block of the
  heap of the right size class, listed once.\<close>

definition bucket_rel :: "state \<Rightarrow> blk list \<Rightarrow> nat \<Rightarrow> nat list \<Rightarrow> bool" where
  "bucket_rel s bl i xs =
     (seg_chain s (seg_list s ! i) (map of_nat xs) \<and> prevs_ok s xs \<and> distinct xs \<and>
      (\<forall>x\<in>set xs. \<exists>sz. free_at bl x sz \<and> sz \<noteq> 16 \<and> find_class (of_nat sz) = i))"

definition minis_rel :: "state \<Rightarrow> blk list \<Rightarrow> nat list \<Rightarrow> bool" where
  "minis_rel s bl ml =
     (mini_chain s (mini_list s) (map of_nat ml) \<and> (\<forall>x\<in>set ml. free_at bl x 16) \<and>
      distinct ml)"

definition lists_rel :: "state \<Rightarrow> blk list \<Rightarrow> nat list list \<Rightarrow> nat list \<Rightarrow> bool" where
  "lists_rel s bl fls ml =
     (length fls = LENGTH_seg \<and> length (seg_list s) = LENGTH_seg \<and>
      (\<forall>i<LENGTH_seg. bucket_rel s bl i (fls ! i)) \<and> minis_rel s bl ml)"

text \<open>The bytes of the payloads of the allocated blocks.\<close>

definition payload_bytes :: "blk list \<Rightarrow> nat set" where
  "payload_bytes bl =
     {z. \<exists>c\<in>set bl. balloc c \<and> baddr c + 8 \<le> z \<and> z < baddr c + bsize c}"

fun flags_from :: "bool \<Rightarrow> bool \<Rightarrow> blk list \<Rightarrow> bool" where
  "flags_from pa pm [] = True"
| "flags_from pa pm (b # bs) =
     (bpa b = pa \<and> bpm b = pm \<and> flags_from (balloc b) (bsize b = 16) bs)"

fun no_adj_free :: "blk list \<Rightarrow> bool" where
  "no_adj_free (b # c # bs) = ((balloc b \<or> balloc c) \<and> no_adj_free (c # bs))"
| "no_adj_free bs = True"

text \<open>The addresses that the lists hold, and a heap whose lists hold exactly the
  addresses in \<open>S\<close>.\<close>

definition listed_set :: "nat list list \<Rightarrow> nat list \<Rightarrow> nat set" where
  "listed_set fls ml = set ml \<union> {x. \<exists>i<length fls. x \<in> set (fls ! i)}"

definition lists_ok :: "state \<Rightarrow> blk list \<Rightarrow> nat set \<Rightarrow> bool" where
  "lists_ok s bl S = (\<exists>fls ml. lists_rel s bl fls ml \<and> listed_set fls ml = S)"

text \<open>The addresses of the free blocks, and the addresses and sizes of the allocated
  blocks (the epilogue apart).\<close>

definition free_set :: "blk list \<Rightarrow> nat set" where
  "free_set bl = baddr ` {b \<in> set bl. \<not> balloc b}"

definition alloc_set :: "blk list \<Rightarrow> (nat \<times> nat) set" where
  "alloc_set bl = (\<lambda>b. (baddr b, bsize b)) ` {b \<in> set bl. balloc b \<and> bsize b \<noteq> 0}"

text \<open>Every pointer the client holds is the payload of an allocated block that has
  room for the size that was asked for.\<close>

definition client_rel :: "blk list \<Rightarrow> client \<Rightarrow> bool" where
  "client_rel bl L =
     (\<forall>p n. L p = Some n \<longrightarrow>
         (\<exists>b\<in>set bl. balloc b \<and> bsize b \<noteq> 0 \<and> p = of_nat (baddr b + 8) \<and>
                     unat n + 8 \<le> bsize b))"

text \<open>The invariant of an initialised heap: the blocks tile the heap, the lists hold
  exactly the free blocks, every header records the status of the block before it, no
  two neighbours are free, and the client's pointers are allocated blocks.\<close>

definition heap_ok :: "state \<Rightarrow> client \<Rightarrow> blk list \<Rightarrow> bool" where
  "heap_ok s L bl =
     (blocks_rel s bl \<and> lists_ok s bl (free_set bl) \<and> flags_from True False bl \<and>
      no_adj_free bl \<and> client_rel bl L)"

definition world_inv :: "state \<times> client \<Rightarrow> bool" where
  "world_inv w =
     (case w of (s, L) \<Rightarrow>
        (boot_ok s \<and> L = Map.empty) \<or>
        (heap_start s \<noteq> 0 \<and> (\<exists>bl. heap_ok s L bl)))"

section \<open>Reading and writing words\<close>

lemma bytes_join:
  "(ucast (byte_of w 0) OR push_bit 8 (ucast (byte_of w 1)) OR push_bit 16 (ucast (byte_of w 2))
     OR push_bit 24 (ucast (byte_of w 3)) OR push_bit 32 (ucast (byte_of w 4))
     OR push_bit 40 (ucast (byte_of w 5)) OR push_bit 48 (ucast (byte_of w 6))
     OR push_bit 56 (ucast (byte_of w 7))) = w" (is "?L = w")
proof (rule bit_eqI)
  fix n assume "possible_bit TYPE(64 word) n"
  then have n: "n < 64" by simp
  define q r where "q = n div 8" and "r = n mod 8"
  have nqr: "n = 8 * q + r" and r: "r < 8" and "q < 8"
    using n by (simp_all add: q_def r_def less_mult_imp_div_less)
  then consider "q = 0" | "q = 1" | "q = 2" | "q = 3" | "q = 4" | "q = 5" | "q = 6" | "q = 7"
    by linarith
  then show "bit ?L n = bit w n"
    using r by cases (simp_all add: nqr byte_of_def bit_simps)
qed

lemma load64_store64_same: "load64 (store64 m a w) a = w"
  using bytes_join [of w] by (simp add: load64_def store64_def)

lemma seven_mask: "(7::64 word) = mask 3"
  by (simp add: mask_eq_exp_minus_1)

lemma fifteen_mask: "(15::64 word) = mask 4"
  by (simp add: mask_eq_exp_minus_1)

lemma aligned8_dvd: "aligned8 a \<longleftrightarrow> 8 dvd unat a"
  using and_mask_dvd_nat [of 3 a] by (simp add: aligned8_def seven_mask)

lemma aligned8_sub: "aligned8 a \<Longrightarrow> aligned8 b \<Longrightarrow> aligned8 (b - a)"
  unfolding aligned8_def seven_mask
  using mask_eqs(8) [of b 3 a] by simp

lemma aligned8_add: "aligned8 a \<Longrightarrow> aligned8 b \<Longrightarrow> aligned8 (b + a)"
  unfolding aligned8_def seven_mask
  using mask_eqs(7) [of b 3 a] by simp

lemma far_byte:
  assumes "aligned8 d" "d \<noteq> 0" "i < 8"
  shows "\<not> (d + i < (8::64 word))"
proof -
  from assms(1) obtain k where k: "unat d = 8 * k"
    by (auto simp: aligned8_dvd dvd_def)
  have "0 < unat d" using assms(2) by (simp add: unat_gt_0)
  with k have lo: "8 \<le> unat d" by simp
  have "unat d < 18446744073709551616" using unsigned_less [of d] by simp
  with k have hi: "unat d + 8 \<le> 18446744073709551616" by simp
  have i: "unat i < 8" using assms(3) by (simp add: word_less_nat_alt)
  have "unat d + unat i < 2 ^ LENGTH(64)" using hi i by simp
  then have "unat (d + i) = unat d + unat i"
    by (rule unat_add_lem [THEN iffD1])
  then show ?thesis using lo by (simp add: word_less_nat_alt)
qed

lemma store64_other_byte:
  assumes "aligned8 a" "aligned8 b" "a \<noteq> b" "i < 8"
  shows "store64 m a w (b + i) = m (b + i)"
proof -
  have far: "\<not> ((b - a) + i < 8)"
    using assms by (intro far_byte aligned8_sub) auto
  have eq: "b + i - a = (b - a) + i" by simp
  show ?thesis unfolding store64_def eq using far by (simp only: if_False)
qed

lemma load64_store64_other:
  assumes "aligned8 a" "aligned8 b" "a \<noteq> b"
  shows "load64 (store64 m a w) b = load64 m b"
proof -
  have "store64 m a w (b + i) = m (b + i)" if "i < 8" for i
    using assms that by (rule store64_other_byte)
  from this [of 0] this [of 1] this [of 2] this [of 3] this [of 4] this [of 5] this [of 6] this [of 7]
  show ?thesis by (simp add: load64_def)
qed

lemma store64_store64_same: "store64 (store64 m a v) a w = store64 m a w"
  by (rule ext) (simp add: store64_def)

lemma load64_zero: "load64 (\<lambda>_. 0) a = 0"
  by (simp add: load64_def)

lemma hdr_aligned_aligned8: "hdr_aligned a \<Longrightarrow> aligned8 a"
proof -
  assume "hdr_aligned a"
  then have a: "a AND 15 = 8" by (simp add: hdr_aligned_def)
  have "a AND 7 = (a AND 15) AND 7" by (simp add: and.assoc)
  also have "\<dots> = 0" by (simp add: a)
  finally show ?thesis by (simp add: aligned8_def)
qed

lemma hdr_aligned_plus8: "hdr_aligned a \<Longrightarrow> (a + 8) AND 15 = 0"
proof -
  assume "hdr_aligned a"
  then have a: "a AND mask 4 = 8" by (simp add: hdr_aligned_def fifteen_mask)
  have "(a + 8) AND mask 4 = ((a AND mask 4) + 8) AND mask 4" by (simp add: mask_eqs)
  also have "\<dots> = 0" unfolding a by (simp flip: fifteen_mask)
  finally show ?thesis by (simp add: fifteen_mask)
qed

lemma hdr_aligned_plus16: "hdr_aligned a \<Longrightarrow> hdr_aligned (a + 16)"
proof -
  assume "hdr_aligned a"
  then have a: "a AND mask 4 = 8" by (simp add: hdr_aligned_def fifteen_mask)
  have "(a + 16) AND mask 4 = ((a AND mask 4) + 16) AND mask 4" by (simp add: mask_eqs)
  also have "\<dots> = 8" unfolding a by (simp flip: fifteen_mask)
  finally show ?thesis by (simp add: fifteen_mask hdr_aligned_def)
qed

lemma aligned8_numerals: "aligned8 8" "aligned8 16"
  by (simp_all add: aligned8_def)

lemma hdr_aligned_fields:
  assumes "hdr_aligned a"
  shows "aligned8 (a + 8)" "aligned8 (a + 16)"
  using aligned8_add [OF aligned8_numerals(1) hdr_aligned_aligned8 [OF assms]]
    aligned8_add [OF aligned8_numerals(2) hdr_aligned_aligned8 [OF assms]]
  by simp_all

lemma hdr_aligned_apart:
  assumes "hdr_aligned a" "hdr_aligned b"
  shows "a + 8 \<noteq> b" "a + 8 \<noteq> b + 16" "b \<noteq> a + 8" "b + 16 \<noteq> a + 8"
proof -
  have 1: "(a + 8) AND 15 = 0" using assms(1) by (rule hdr_aligned_plus8)
  have 2: "b AND 15 = 8" using assms(2) by (simp add: hdr_aligned_def)
  have 3: "(b + 16) AND 15 = 8"
    using hdr_aligned_plus16 [OF assms(2)] by (simp add: hdr_aligned_def)
  show "a + 8 \<noteq> b" using 1 2 by auto
  then show "b \<noteq> a + 8" by auto
  show "a + 8 \<noteq> b + 16"
  proof
    assume "a + 8 = b + 16"
    with 1 have "(b + 16) AND 15 = 0" by simp
    with 3 show False by simp
  qed
  then show "b + 16 \<noteq> a + 8" by (rule not_sym)
qed

section \<open>Evaluating the code on concrete states\<close>

lemma replicate_14: "replicate 14 x = [x, x, x, x, x, x, x, x, x, x, x, x, x, x]"
  by (simp add: numeral_eq_Suc)

lemma load64_memset_inside:
  assumes "a - d < n" "a + 1 - d < n" "a + 2 - d < n" "a + 3 - d < n"
    "a + 4 - d < n" "a + 5 - d < n" "a + 6 - d < n" "a + 7 - d < n"
  shows "load64 (memset m d 0 n) a = 0"
  using assms by (simp add: load64_def memset_def)

lemma load64_memset_outside:
  assumes "\<not> a - d < n" "\<not> a + 1 - d < n" "\<not> a + 2 - d < n" "\<not> a + 3 - d < n"
    "\<not> a + 4 - d < n" "\<not> a + 5 - d < n" "\<not> a + 6 - d < n" "\<not> a + 7 - d < n"
  shows "load64 (memset m d c n) a = load64 m a"
  using assms by (simp add: load64_def memset_def)

lemma load64_memcpy_inside:
  assumes "a - d < n" "a + 1 - d < n" "a + 2 - d < n" "a + 3 - d < n"
    "a + 4 - d < n" "a + 5 - d < n" "a + 6 - d < n" "a + 7 - d < n"
  shows "load64 (memcpy m d src n) a = load64 m (src + (a - d))"
  using assms by (simp add: load64_def memcpy_def algebra_simps)

lemma load64_memcpy_outside:
  assumes "\<not> a - d < n" "\<not> a + 1 - d < n" "\<not> a + 2 - d < n" "\<not> a + 3 - d < n"
    "\<not> a + 4 - d < n" "\<not> a + 5 - d < n" "\<not> a + 6 - d < n" "\<not> a + 7 - d < n"
  shows "load64 (memcpy m d src n) a = load64 m a"
  using assms by (simp add: load64_def memcpy_def)

lemma store64_apply: "store64 m a w x = (if x - a < 8 then byte_of w (unat (x - a)) else m x)"
  by (simp add: store64_def)

lemma memcpy_apply: "memcpy m d src n x = (if x - d < n then m (src + (x - d)) else m x)"
  by (simp add: memcpy_def)

lemma memset_apply: "memset m d c n x = (if x - d < n then c else m x)"
  by (simp add: memset_def)




lemmas eval_simps =
  mm_malloc_def mm_free_def mm_realloc_def mm_calloc_def mm_init_def mem_sbrk_def
  extend_heap_def coalesce_block_def write_pack_def write_epilogue_def insert_free_def
  remove_free_def find_fit_def split_block_def write_prev_alloc_def find_prev_def
  find_next_def header_def get_size_def get_alloc_def get_prev_alloc_def get_prev_mini_def
  is_mini_block_def extract_size_def extract_alloc_def pack_all_def round_up_def
  max_size_def payload_to_header_def header_to_payload_def header_to_footer_def
  footer_to_header_def find_prev_footer_def find_class_def is_head_def payload_prev_def
  payload_next_def mini_next_def set_header_def set_payload_prev_def set_payload_next_def
  set_mini_next_def wsize_def dsize_def min_block_size_def chunksize_def alloc_mask_def
  prev_alloc_mask_def prev_mini_mask_def size_mask_def LENGTH_seg_def Let_def
  load64_store64_same load64_store64_other store64_store64_same load64_zero
  aligned8_def hdr_aligned_def find_fit_scan.simps mini_pred.simps replicate_14
  list_update_code load64_memset_inside load64_memset_outside
  load64_memcpy_inside load64_memcpy_outside store64_apply memcpy_apply memset_apply
  byte_of_def case_prod_unfold boot_state_def
  heap_walk.simps all_blocks_def check_non_consecutive_free_def prev_flags_agree_def
  mem_heap_hi_def mem_heap_lo_def req_ok_def

section \<open>Edge cases of the public interface\<close>

text \<open>
  Claim C4, as the code has it. \<^verbatim>\<open>malloc(0)\<close> returns nil and leaves an initialised heap
  unchanged; on a heap that is not yet initialised it first runs \<^verbatim>\<open>mm_init\<close> (the size
  test comes after the initialisation) and then returns nil. \<^verbatim>\<open>free(nil)\<close> changes
  nothing. \<^verbatim>\<open>realloc(nil, n)\<close> is \<^verbatim>\<open>malloc(n)\<close> for \<open>n > 0\<close>, and \<^verbatim>\<open>realloc(nil, 0)\<close> is
  \<^verbatim>\<open>free(nil)\<close> followed by returning nil. \<^verbatim>\<open>realloc(p, 0)\<close> is \<^verbatim>\<open>free(p)\<close> followed by
  returning nil.
\<close>

theorem api_edge_cases:
  "(heap_start s \<noteq> 0 \<longrightarrow> mm_malloc s 0 = Some (0, s)) \<and>
   (heap_start s = 0 \<longrightarrow> mm_malloc s 0 = map_option (\<lambda>(ok, s'). (0, s')) (mm_init s)) \<and>
   mm_free s 0 = Some s \<and>
   (n \<noteq> 0 \<longrightarrow> mm_realloc s 0 n = mm_malloc s n) \<and>
   mm_realloc s 0 0 = Some (0, s) \<and>
   mm_realloc s p 0 = map_option (\<lambda>s'. (0, s')) (mm_free s p)"
proof -
  have 1: "heap_start s \<noteq> 0 \<longrightarrow> mm_malloc s 0 = Some (0, s)"
    by (simp add: mm_malloc_def)
  have 2: "heap_start s = 0 \<longrightarrow> mm_malloc s 0 = map_option (\<lambda>(ok, s'). (0, s')) (mm_init s)"
    by (cases "mm_init s") (auto simp: mm_malloc_def)
  have 3: "mm_free s 0 = Some s"
    by (simp add: mm_free_def)
  have 4: "n \<noteq> 0 \<longrightarrow> mm_realloc s 0 n = mm_malloc s n"
    by (simp add: mm_realloc_def)
  have 5: "mm_realloc s 0 0 = Some (0, s)"
    by (simp add: mm_realloc_def mm_free_def)
  have 6: "mm_realloc s p 0 = map_option (\<lambda>s'. (0, s')) (mm_free s p)"
    by (cases "mm_free s p") (simp_all add: mm_realloc_def)
  from 1 2 3 4 5 6 show ?thesis by blast
qed

text \<open>Claim C4, witness: the edge cases on two concrete states.\<close>

theorem api_edge_cases_witness:
  "heap_start split_state \<noteq> 0 \<and> mm_malloc split_state 0 = Some (0, split_state) \<and>
   heap_start boot_state = 0 \<and>
   mm_malloc boot_state 0 = map_option (\<lambda>(ok, s'). (0, s')) (mm_init boot_state) \<and>
   (1 :: size_t) \<noteq> 0 \<and> mm_realloc boot_state 0 1 = mm_malloc boot_state 1"
  using api_edge_cases [of split_state 1] api_edge_cases [of boot_state 1]
  by (simp add: split_state_def boot_state_def)

text \<open>
  Claim C4, counterexample: on the state before the first call \<^verbatim>\<open>malloc(0)\<close> returns nil
  but initialises the heap (\<^verbatim>\<open>heap_start\<close> becomes 0x1008 and the first free block is
  written), whereas \<^verbatim>\<open>realloc(nil, 0)\<close> leaves that state as it is.
\<close>

theorem malloc_zero_initialises:
  "heap_start boot_state = 0 \<and>
   map_option (\<lambda>(p, s'). (p, heap_start s', header s' 0x1008)) (mm_malloc boot_state 0)
     = Some (0, 0x1008, 4098) \<and>
   mm_realloc boot_state 0 0 = Some (0, boot_state)"
  by (simp add: eval_simps split del: if_split)

section \<open>Zeroed allocation\<close>



section \<open>Splitting\<close>

text \<open>
  Claim C8, the code at the failing input: \<^verbatim>\<open>split_block\<close> of the 4096-byte block at 0x1008
  with \<open>asize = 32\<close> shrinks the block to 32 bytes and returns the free remainder of
  4064 bytes at 0x1028, but the right neighbour of the remainder (here the epilogue at
  0x2008) still has its \<^verbatim>\<open>prev_alloc\<close> bit set: \<^verbatim>\<open>write_prev_alloc(next_next, false)\<close>
  only ever sets the bit.
\<close>

theorem split_block_keeps_prev_alloc:
  "(case split_block split_state 0x1008 32 of
      (rest, s') \<Rightarrow> (rest, get_size s' 0x1008, get_alloc s' rest, get_size s' rest,
                    find_next s' rest, get_prev_alloc s' (find_next s' rest)))
   = (0x1028, 32, False, 4064, 0x2008, True)"
  by (simp add: split_state_def eval_simps split del: if_split)

section \<open>Bucket lists\<close>

lemma seg_chain_nil_head: "seg_chain s 0 xs \<longleftrightarrow> xs = []"
  by (cases xs) auto

lemma seg_chain_next_cong:
  "(\<And>x. x \<in> set xs \<Longrightarrow> payload_next s' x = payload_next s x) \<Longrightarrow>
   seg_chain s' h xs = seg_chain s h xs"
  by (induction xs arbitrary: h) auto

lemma insert_free_nonmini_empty:
  assumes "\<not> is_mini_block s b" "seg_list s ! find_class (get_size s b) = 0"
  shows "insert_free s b =
     s\<lparr>seg_list := (seg_list s)[find_class (get_size s b) := b],
       mem := store64 (store64 (mem s) (b + 16) 0) (b + 8) 0\<rparr>"
  using assms by (simp add: insert_free_def Let_def set_payload_next_def set_payload_prev_def)

lemma insert_free_nonmini_cons:
  assumes "\<not> is_mini_block s b" "seg_list s ! find_class (get_size s b) \<noteq> 0"
  shows "insert_free s b =
     s\<lparr>seg_list := (seg_list s)[find_class (get_size s b) := b],
       mem := store64 (store64 (mem s) (seg_list s ! find_class (get_size s b) + 8) b)
                (b + 16) (seg_list s ! find_class (get_size s b))\<rparr>"
  using assms by (simp add: insert_free_def Let_def set_payload_next_def set_payload_prev_def)

text \<open>
  What \<^verbatim>\<open>insert_free\<close> does to the links of a bucket: the block \<open>b\<close> (not a mini block)
  becomes the head, \<open>b.next\<close> is the old head, the old head's \<open>prev\<close> link is \<open>b\<close> when
  there is an old head, and the chain of \<open>next\<close> links still ends in nil. The \<open>prev\<close>
  link of \<open>b\<close> is written (to nil) only in the branch for the empty bucket.
\<close>

lemma insert_free_links:
  assumes nm: "\<not> is_mini_block s b" and ab: "hdr_aligned b" and b0: "b \<noteq> 0"
    and c: "c = find_class (get_size s b)" and len: "c < length (seg_list s)"
    and h: "h = seg_list s ! c" and ch: "seg_chain s h xs"
    and al: "\<forall>x\<in>set xs. hdr_aligned x" and nin: "b \<notin> set xs"
  shows "seg_list (insert_free s b) ! c = b \<and>
         payload_next (insert_free s b) b = h \<and>
         (h \<noteq> 0 \<longrightarrow> payload_prev (insert_free s b) h = b \<and>
                    payload_prev (insert_free s b) b = payload_prev s b) \<and>
         (h = 0 \<longrightarrow> payload_prev (insert_free s b) b = 0) \<and>
         seg_chain (insert_free s b) b (b # xs)"
proof (cases "h = 0")
  case True
  then have xs: "xs = []" using ch by (simp add: seg_chain_nil_head)
  have eq: "insert_free s b =
     s\<lparr>seg_list := (seg_list s)[c := b], mem := store64 (store64 (mem s) (b + 16) 0) (b + 8) 0\<rparr>"
    using insert_free_nonmini_empty [OF nm] True h c by simp
  have nx: "payload_next (insert_free s b) b = 0"
    using hdr_aligned_fields [OF ab]
    by (simp add: eq payload_next_def load64_store64_other load64_store64_same)
  have pv: "payload_prev (insert_free s b) b = 0"
    by (simp add: eq payload_prev_def load64_store64_same)
  show ?thesis using True nx pv len b0 by (simp add: xs eq)
next
  case False
  then obtain ys where xs: "xs = h # ys" using ch by (cases xs) auto
  have ah: "hdr_aligned h" and hb: "h \<noteq> b" using al nin by (auto simp: xs)
  have eq: "insert_free s b =
     s\<lparr>seg_list := (seg_list s)[c := b], mem := store64 (store64 (mem s) (h + 8) b) (b + 16) h\<rparr>"
    using insert_free_nonmini_cons [OF nm] False h c by simp
  have nx: "payload_next (insert_free s b) b = h"
    by (simp add: eq payload_next_def load64_store64_same)
  have pvh: "payload_prev (insert_free s b) h = b"
    using hdr_aligned_fields [OF ab] hdr_aligned_fields [OF ah] hdr_aligned_apart [OF ah ab]
    by (simp add: eq payload_prev_def load64_store64_other load64_store64_same)
  have pvb: "payload_prev (insert_free s b) b = payload_prev s b"
    using hdr_aligned_fields [OF ab] hdr_aligned_fields [OF ah] hb
    by (simp add: eq payload_prev_def load64_store64_other)
  have "payload_next (insert_free s b) x = payload_next s x" if "x \<in> set xs" for x
  proof -
    have ax: "hdr_aligned x" and xb: "x \<noteq> b" using that al nin by auto
    show ?thesis
      using hdr_aligned_fields [OF ab] hdr_aligned_fields [OF ah] hdr_aligned_fields [OF ax]
        hdr_aligned_apart [OF ah ax] xb
      by (simp add: eq payload_next_def load64_store64_other)
  qed
  then have "seg_chain (insert_free s b) h xs = seg_chain s h xs"
    by (rule seg_chain_next_cong)
  then show ?thesis using False nx pvh pvb len b0 ch by (simp add: eq)
qed

lemma insert_free_links_example:
  "seg_list (insert_free link_state 0x1008) ! 1 = 0x1008 \<and>
   payload_next (insert_free link_state 0x1008) 0x1008 = 0x1048 \<and>
   payload_prev (insert_free link_state 0x1008) 0x1048 = 0x1008 \<and>
   seg_chain (insert_free link_state 0x1008) 0x1008 [0x1008, 0x1048]"
proof -
  have "\<not> is_mini_block link_state 0x1008" "hdr_aligned 0x1008" "(0x1008 :: addr) \<noteq> 0"
    "1 = find_class (get_size link_state 0x1008)" "1 < length (seg_list link_state)"
    "0x1048 = seg_list link_state ! 1" "seg_chain link_state 0x1048 [0x1048]"
    "\<forall>x\<in>set [0x1048]. hdr_aligned x" "0x1008 \<notin> set [0x1048 :: addr]"
    by (simp_all add: link_state_def eval_simps split del: if_split)
  from insert_free_links [OF this] show ?thesis by simp
qed

text \<open>
  Claim C9, the code at the failing input. Bucket 1 holds the free block at 0x1048; the
  block at 0x1008 (32 bytes, just marked free) still holds the word 42 where its
  \<open>prev\<close> link lies. \<^verbatim>\<open>insert_free\<close> makes 0x1008 the head of the bucket and leaves its
  \<open>prev\<close> link at 42 instead of nil: the branch for a bucket that is not empty never
  writes \<^verbatim>\<open>block->payload.prev\<close>, although the branch for the empty bucket sets it to
  nil. \<^verbatim>\<open>remove_free\<close> of that head then makes 0x1048 the head again, and its \<open>prev\<close>
  link still points to the removed block.
\<close>

theorem insert_free_prev_not_nil:
  "payload_prev (insert_free link_state 0x1008) 0x1008 = 42 \<and>
   seg_list (insert_free link_state 0x1008) ! 1 = 0x1008 \<and>
   map_option (\<lambda>s'. (seg_list s' ! 1, payload_prev s' 0x1048))
     (remove_free (insert_free link_state 0x1008) 0x1008) = Some (0x1048, 0x1008)"
  by (simp add: link_state_def eval_simps split del: if_split)

section \<open>Finding a fit\<close>

lemma seg_chain_nonzero: "seg_chain s h xs \<Longrightarrow> 0 \<notin> set xs"
  by (induction xs arbitrary: h) auto

lemma descend_nonzero: "best \<noteq> 0 \<Longrightarrow> 0 \<notin> set cs \<Longrightarrow> descend s best cs \<noteq> 0"
  by (induction cs arbitrary: best) auto

lemma find_fit_scan_set:
  assumes "seg_chain s h xs" "best \<noteq> 0"
  shows "find_fit_scan s asize best h = Some (Return (descend s best (filter (fits s asize) xs)))
       \<or> find_fit_scan s asize best h = Some (Finished (descend s best (filter (fits s asize) xs)))"
  using assms
proof (induction xs arbitrary: h best)
  case Nil
  then show ?case by (simp add: find_fit_scan.simps)
next
  case (Cons x xs)
  then have hx: "h = x" "x \<noteq> 0" and ch: "seg_chain s (payload_next s x) xs" by auto
  show ?case
  proof (cases "fits s asize x")
    case True
    then have f: "\<not> get_alloc s x \<and> asize \<le> get_size s x" by (simp add: fits_def)
    show ?thesis
    proof (cases "get_size s x < get_size s best")
      case less: True
      from Cons.IH [OF ch hx(2)] show ?thesis
        using True f less hx Cons.prems(2)
        by (subst (1 2) find_fit_scan.simps) simp
    next
      case False
      then show ?thesis
        using True f hx Cons.prems(2)
        by (subst (1 2) find_fit_scan.simps) simp
    qed
  next
    case False
    then have f: "(\<not> get_alloc s x \<and> asize \<le> get_size s x) = False" by (simp add: fits_def)
    from Cons.IH [OF ch Cons.prems(2)] show ?thesis
      using False hx
      by (subst (1 2) find_fit_scan.simps) (simp add: f)
  qed
qed

lemma find_fit_scan_unset:
  assumes "seg_chain s h xs"
  shows "find_fit_scan s asize 0 h = Some (Finished (bucket_best s asize xs))
       \<or> find_fit_scan s asize 0 h = Some (Return (bucket_best s asize xs))
         \<and> bucket_best s asize xs \<noteq> 0"
  using assms
proof (induction xs arbitrary: h)
  case Nil
  then show ?case by (simp add: find_fit_scan.simps bucket_best_def)
next
  case (Cons x xs)
  then have hx: "h = x" "x \<noteq> 0" and ch: "seg_chain s (payload_next s x) xs" by auto
  show ?case
  proof (cases "fits s asize x")
    case True
    then have f: "\<not> get_alloc s x \<and> asize \<le> get_size s x" by (simp add: fits_def)
    have nz: "descend s x (filter (fits s asize) xs) \<noteq> 0"
      using seg_chain_nonzero [OF ch] hx(2) by (intro descend_nonzero) auto
    from find_fit_scan_set [OF ch hx(2), of asize] show ?thesis
      using True f hx nz
      by (subst (1 2) find_fit_scan.simps) (auto simp: bucket_best_def)
  next
    case False
    then have f: "(\<not> get_alloc s x \<and> asize \<le> get_size s x) = False" by (simp add: fits_def)
    from Cons.IH [OF ch] show ?thesis
      using False hx
      by (subst (1 2) find_fit_scan.simps) (auto simp: f bucket_best_def)
  qed
qed

lemma find_fit_from_chains:
  assumes "list_all2 (seg_chain s) (seg_list s) chs" "length chs = LENGTH_seg"
  shows "find_fit_from s asize k = Some (first_found (map (bucket_best s asize) (drop k chs)))"
proof (induction "LENGTH_seg - k" arbitrary: k)
  case 0
  then show ?case using assms(2) by (subst find_fit_from.simps) simp
next
  case (Suc n)
  then have k: "k < LENGTH_seg" and n: "n = LENGTH_seg - Suc k" by auto
  have ch: "seg_chain s (seg_list s ! k) (chs ! k)"
    using assms k by (simp add: list_all2_conv_all_nth)
  have dr: "drop k chs = chs ! k # drop (Suc k) chs"
    using assms(2) k by (simp add: Cons_nth_drop_Suc)
  from find_fit_scan_unset [OF ch, of asize] Suc.hyps(1) [OF n] show ?case
    using k by (subst find_fit_from.simps) (auto simp: dr)
qed

text \<open>
  Claim C7, as the code has it. When every bucket is a nil-terminated chain, \<^verbatim>\<open>find_fit\<close>
  returns the head of the mini list for a request of 16 bytes when that list is not
  empty; otherwise it returns the bounded best fit of the first bucket, from the class
  of the request upwards, that holds a fitting block (nil when there is none). Within
  a bucket the scan follows the fitting blocks while each is strictly smaller than the
  best so far, and halts at the first fitting block that is not smaller (larger or of
  equal size), returning the best so far.
\<close>

theorem find_fit_bounded_best:
  assumes "list_all2 (seg_chain s) (seg_list s) chs" "length chs = LENGTH_seg"
  shows "find_fit s asize =
     Some (if asize = min_block_size \<and> mini_list s \<noteq> 0 then mini_list s
           else first_found (map (bucket_best s asize) (drop (find_class asize) chs)))"
  using find_fit_from_chains [OF assms] by (simp add: find_fit_def)

text \<open>Claim C7, witness: the request of 64 bytes on a bucket of blocks of 96, 96 and 64 bytes.\<close>

theorem find_fit_bounded_best_witness:
  "find_fit fit_state 64 = Some 0x1008"
proof -
  have "list_all2 (seg_chain fit_state) (seg_list fit_state)
          [[], [], [0x1008, 0x1108, 0x1208], [], [], [], [], [], [], [], [], [], [], []]"
    "length [[], [], [0x1008 :: addr, 0x1108, 0x1208], [], [], [], [], [], [], [], [], [], [], []]
       = LENGTH_seg"
    by (simp_all add: fit_state_def eval_simps split del: if_split)
  from find_fit_bounded_best [OF this, of 64] show ?thesis
    by (simp add: fit_state_def eval_simps bucket_best_def fits_def split del: if_split)
qed

text \<open>
  Claim C7, counterexample: bucket 2 holds blocks of 96, 96 and 64 bytes. For a request
  of 64 bytes the code halts at the second block (it is not smaller than the first) and
  returns the first block; the scan that halts only at a larger candidate goes on and
  returns the block of 64 bytes.
\<close>

theorem find_fit_halts_on_ties:
  "seg_chain fit_state (seg_list fit_state ! 2) [0x1008, 0x1108, 0x1208] \<and>
   find_fit fit_state 64 = Some 0x1008 \<and>
   spec_bucket_best fit_state 64 [0x1008, 0x1108, 0x1208] = 0x1208"
  by (simp add: fit_state_def eval_simps spec_bucket_best_def fits_def split del: if_split)

section \<open>Words and natural numbers\<close>

lemma unat_of_nat64: "n < 2 ^ 64 \<Longrightarrow> unat (of_nat n :: 64 word) = n"
  by (simp add: unat_of_nat)

lemma of_nat_inj64:
  "a < 2 ^ 64 \<Longrightarrow> b < 2 ^ 64 \<Longrightarrow> ((of_nat a :: 64 word) = of_nat b) = (a = b)"
  by (metis unat_of_nat64)

lemma of_nat_eq_0_64: "a < 2 ^ 64 \<Longrightarrow> ((of_nat a :: 64 word) = 0) = (a = 0)"
  using of_nat_inj64 [of a 0] by simp

lemma of_nat_le64:
  "a < 2 ^ 64 \<Longrightarrow> b < 2 ^ 64 \<Longrightarrow> ((of_nat a :: 64 word) \<le> of_nat b) = (a \<le> b)"
  by (simp add: word_le_nat_alt unat_of_nat64)

lemma of_nat_less64:
  "a < 2 ^ 64 \<Longrightarrow> b < 2 ^ 64 \<Longrightarrow> ((of_nat a :: 64 word) < of_nat b) = (a < b)"
  by (simp add: word_less_nat_alt unat_of_nat64)

lemma store64_outside:
  assumes "a + 8 \<le> 2 ^ 64" "\<not> (a \<le> unat x \<and> unat x < a + 8)"
  shows "store64 m (of_nat a) w x = m x"
proof -
  have ua: "unat (of_nat a :: 64 word) = a" using assms(1) by (simp add: unat_of_nat64)
  have xb: "unat x < 2 ^ 64" using unsigned_less [of x] by simp
  have "8 \<le> unat (x - of_nat a)"
  proof (cases "a \<le> unat x")
    case True
    then have "unat (x - of_nat a) = unat x - a"
      by (simp add: unat_sub word_le_nat_alt ua)
    with True assms(2) show ?thesis by simp
  next
    case False
    then have "unat (x - of_nat a) = 2 ^ 64 + unat x - a"
      using xb by (simp add: unat_sub_if_size ua word_size)
    with False assms(1) show ?thesis by simp
  qed
  then have "\<not> (x - of_nat a < 8)" by (simp add: word_less_nat_alt)
  then show ?thesis by (simp add: store64_def)
qed

lemma load64_bytes_cong:
  assumes "a + 8 \<le> 2 ^ 64" "\<And>x. a \<le> unat x \<Longrightarrow> unat x < a + 8 \<Longrightarrow> m' x = m x"
  shows "load64 m' (of_nat a) = load64 m (of_nat a)"
proof -
  have ua: "unat (of_nat a :: 64 word) = a" using assms(1) by (simp add: unat_of_nat64)
  have "m' (of_nat a + i) = m (of_nat a + i)" if "unat i < 8" for i :: "64 word"
  proof -
    have "unat (of_nat a :: 64 word) + unat i < 2 ^ LENGTH(64)"
      using that assms(1) ua by simp
    then have "unat (of_nat a + i) = a + unat i"
      using ua by (simp add: unat_add_lem [THEN iffD1])
    then show ?thesis using that by (intro assms(2)) simp_all
  qed
  from this [of 0] this [of 1] this [of 2] this [of 3] this [of 4] this [of 5] this [of 6] this [of 7]
  show ?thesis by (simp add: load64_def)
qed

lemma touch_refl: "touch s s A"
  by (simp add: touch_def)

lemma touch_trans: "touch s s' A \<Longrightarrow> touch s' s'' B \<Longrightarrow> touch s s'' (A \<union> B)"
  by (simp add: touch_def)

lemma touch_mono: "touch s s' A \<Longrightarrow> A \<subseteq> B \<Longrightarrow> touch s s' B"
  by (auto simp: touch_def)

lemma touch_mem_eq: "mem s' = mem s \<Longrightarrow> touch s s' A"
  by (simp add: touch_def)

lemma touch_store64:
  "a + 8 \<le> 2 ^ 64 \<Longrightarrow> mem s' = store64 (mem s) (of_nat a) w \<Longrightarrow> touch s s' {a..<a + 8}"
  by (simp add: touch_def store64_outside)

lemma load64_touch:
  assumes "touch s s' A" "a + 8 \<le> 2 ^ 64" "A \<inter> {a..<a + 8} = {}"
  shows "load64 (mem s') (of_nat a) = load64 (mem s) (of_nat a)"
proof (rule load64_bytes_cong [OF assms(2)])
  fix x :: addr assume "a \<le> unat x" "unat x < a + 8"
  then have "unat x \<notin> A" using assms(3) by auto
  then show "mem s' x = mem s x" using assms(1) by (simp add: touch_def)
qed

section \<open>Packed words\<close>

lemma of_nat_16_low: "16 dvd n \<Longrightarrow> (of_nat n :: 64 word) AND 15 = 0"
proof -
  assume "16 dvd n"
  then have "2 ^ 4 dvd unat (of_nat n :: 64 word)"
    by (simp add: unat_of_nat dvd_mod)
  then show ?thesis using and_mask_dvd_nat [of 4 "of_nat n :: 64 word"]
    by (simp add: fifteen_mask)
qed

lemma low_bits_clear:
  assumes "(x :: 64 word) AND 15 = 0" "n < 4"
  shows "\<not> bit x n"
proof
  assume "bit x n"
  moreover have "bit (15 :: 64 word) n" using assms(2)
    by (simp add: fifteen_mask bit_mask_iff)
  ultimately have "bit (x AND 15) n" by (simp add: bit_and_iff)
  then show False using assms(1) by simp
qed

lemma pack_fields:
  assumes "(x :: 64 word) AND 15 = 0"
  shows "extract_size (pack_all x al pa pm) = x"
    and "extract_alloc (pack_all x al pa pm) = al"
    and "(drop_bit 1 (pack_all x al pa pm AND prev_alloc_mask) \<noteq> 0) = pa"
    and "(drop_bit 2 (pack_all x al pa pm AND prev_mini_mask) \<noteq> 0) = pm"
proof -
  have lt4: "\<not> bit x n" if "n < 4" for n using low_bits_clear [OF assms that] .
  have b: "\<not> bit x 0" "\<not> bit x (Suc 0)" "\<not> bit x 2" "\<not> bit x 3"
    using lt4 [of 0] lt4 [of 1] lt4 [of 2] lt4 [of 3] by simp_all
  have hi: "x AND NOT 15 = x"
  proof (rule bit_eqI)
    fix n
    have "bit x n \<Longrightarrow> \<not> n < 4" using lt4 by blast
    then show "bit (x AND NOT 15) n = bit x n"
      by (auto simp add: bit_simps fifteen_mask bit_mask_iff dest: bit_imp_le_length)
  qed
  have fl: "(1 :: 64 word) AND NOT 15 = 0" "(2 :: 64 word) AND NOT 15 = 0"
    "(4 :: 64 word) AND NOT 15 = 0"
    by simp_all
  show "extract_size (pack_all x al pa pm) = x"
    unfolding extract_size_def pack_all_def size_mask_def alloc_mask_def prev_alloc_mask_def
      prev_mini_mask_def Let_def
    by (cases al; cases pa; cases pm) (simp_all add: bit.conj_disj_distrib2 hi [simplified])
  have n1: "bit (1 :: 64 word) n \<longleftrightarrow> n = 0" for n
    by (simp add: bit_1_iff)
  have n2: "bit (2 :: 64 word) n \<longleftrightarrow> n = 1" for n
    using bit_exp_iff [where 'a = "64 word", of 1 n] by auto
  have n4: "bit (4 :: 64 word) n \<longleftrightarrow> n = 2" for n
    using bit_exp_iff [where 'a = "64 word", of 2 n] by auto
  have nz: "(v \<noteq> 0) = P" if h: "\<And>n. bit v n \<longleftrightarrow> n = 0 \<and> P" for v :: "64 word" and P
  proof
    assume "v \<noteq> 0"
    have "\<exists>n. bit v n"
    proof (rule ccontr)
      assume "\<not> (\<exists>n. bit v n)"
      then have "v = 0" by (intro bit_eqI) simp
      with \<open>v \<noteq> 0\<close> show False by simp
    qed
    then show P using h by blast
  next
    assume P
    then have "bit v 0" using h by simp
    then show "v \<noteq> 0" by auto
  qed
  have pb: "bit (pack_all x al' pa' pm') 0 = al'" "bit (pack_all x al' pa' pm') (Suc 0) = pa'"
    "bit (pack_all x al' pa' pm') 2 = pm'" for al' pa' pm'
    unfolding pack_all_def alloc_mask_def prev_alloc_mask_def prev_mini_mask_def Let_def
    using b by (simp_all add: bit_or_iff n1 n2 n4)
  have pb2: "bit (pack_all x al' pa' pm') (Suc (Suc 0)) = pm'" for al' pa' pm'
    using pb(3) [of al' pa' pm'] by (simp add: numeral_2_eq_2)
  show "extract_alloc (pack_all x al pa pm) = al"
    unfolding extract_alloc_def alloc_mask_def
    by (rule nz) (auto simp: bit_and_iff n1 pb)
  show "(drop_bit 1 (pack_all x al pa pm AND prev_alloc_mask) \<noteq> 0) = pa"
    unfolding prev_alloc_mask_def
    by (rule nz) (auto simp: bit_and_iff bit_drop_bit_eq n1 n2 n4 pb pb2)
  show "(drop_bit 2 (pack_all x al pa pm AND prev_mini_mask) \<noteq> 0) = pm"
    unfolding prev_mini_mask_def
    by (rule nz) (auto simp: bit_and_iff bit_drop_bit_eq n1 n2 n4 pb pb2)
qed

section \<open>Layouts\<close>

lemma seg_append: "seg a (xs @ ys) e \<longleftrightarrow> (\<exists>m. seg a xs m \<and> seg m ys e)"
  by (induction xs arbitrary: a) auto

lemma seg_end: "seg a xs e \<Longrightarrow> e = a + sum_list (map bsize xs)"
proof (induction xs arbitrary: a)
  case Nil
  then show ?case by simp
next
  case (Cons x xs)
  then have "seg (a + bsize x) xs e" by simp
  from Cons.IH [OF this] show ?case by simp
qed

lemma seg_unique: "seg a xs e \<Longrightarrow> seg a xs e' \<Longrightarrow> e' = e"
  by (auto dest: seg_end)

lemma seg_le: "seg a xs e \<Longrightarrow> a \<le> e"
  by (auto dest: seg_end)

lemma seg_bounds: "seg a xs e \<Longrightarrow> b \<in> set xs \<Longrightarrow> a \<le> baddr b \<and> baddr b + bsize b \<le> e \<and> 16 \<le> bsize b \<and> 16 dvd bsize b"
proof (induction xs arbitrary: a)
  case Nil
  then show ?case by simp
next
  case (Cons x xs)
  then show ?case using seg_le [of "a + bsize x" xs e] by fastforce
qed

lemma seg_aligned: "seg a xs e \<Longrightarrow> a mod 16 = 8 \<Longrightarrow> e mod 16 = 8 \<and> (\<forall>b\<in>set xs. baddr b mod 16 = 8)"
proof (induction xs arbitrary: a)
  case Nil
  then show ?case by simp
next
  case (Cons x xs)
  then have "(a + bsize x) mod 16 = 8" by (metis mod_add_right_eq dvd_eq_mod_eq_0 add.right_neutral seg.simps(2))
  with Cons show ?case by auto
qed

lemma layout_nonempty: "layout a bl e \<Longrightarrow> bl \<noteq> []"
  by (cases bl) auto

lemma layout_append:
  "post \<noteq> [] \<Longrightarrow> layout a (pre @ post) e \<longleftrightarrow> (\<exists>m. seg a pre m \<and> layout m post e)"
proof (induction pre arbitrary: a)
  case Nil
  then show ?case by simp
next
  case (Cons x pre)
  then obtain y ys where "pre @ post = y # ys" by (cases "pre @ post") auto
  then show ?case using Cons.IH [OF Cons.prems, of "a + bsize x"] by auto
qed

lemma layout_last:
  "layout a (pre @ [ep]) e \<longleftrightarrow> seg a pre e \<and> baddr ep = e \<and> bsize ep = 0 \<and> balloc ep"
  by (auto simp: layout_append)

lemma layout_cons_real:
  "post \<noteq> [] \<Longrightarrow> layout a (b # post) e \<longleftrightarrow>
     baddr b = a \<and> 16 \<le> bsize b \<and> 16 dvd bsize b \<and> layout (a + bsize b) post e"
  by (cases post) auto

lemma layout_start: "layout a (b # bs) e \<Longrightarrow> baddr b = a"
  by (cases bs) auto

lemma layout_le: "layout a bl e \<Longrightarrow> a \<le> e"
proof (induction bl arbitrary: a)
  case Nil
  then show ?case by simp
next
  case (Cons x xs)
  then show ?case by (cases xs) fastforce+
qed

lemma layout_bounds:
  "layout a bl e \<Longrightarrow> b \<in> set bl \<Longrightarrow> a \<le> baddr b \<and> baddr b + bsize b \<le> e \<and> 16 dvd bsize b"
proof (induction bl arbitrary: a)
  case Nil
  then show ?case by simp
next
  case (Cons x xs)
  show ?case
  proof (cases xs)
    case Nil
    with Cons.prems show ?thesis by auto
  next
    case (Cons y ys)
    with Cons.prems Cons.IH [of "a + bsize x"] layout_le [of "a + bsize x" xs e]
    show ?thesis by fastforce
  qed
qed

lemma layout_aligned:
  "layout a bl e \<Longrightarrow> a mod 16 = 8 \<Longrightarrow> b \<in> set bl \<Longrightarrow> baddr b mod 16 = 8"
proof -
  assume l: "layout a bl e" and a: "a mod 16 = 8" and b: "b \<in> set bl"
  from b obtain pre post where bl: "bl = pre @ b # post" by (auto dest: split_list)
  with l obtain m where "seg a pre m" "layout m (b # post) e" by (auto simp: layout_append)
  then show ?thesis using seg_aligned [of a pre m] a layout_start [of m b post e] by simp
qed

text \<open>In a layout, the blocks before a block end at or before its start, and the blocks
  after it start at or after its end.\<close>

lemma layout_before:
  "layout a (pre @ b # post) e \<Longrightarrow> c \<in> set pre \<Longrightarrow>
     baddr c + bsize c \<le> baddr b \<and> 16 \<le> bsize c"
  by (auto simp: layout_append dest: seg_bounds layout_start)

lemma layout_after:
  "layout a (pre @ b # post) e \<Longrightarrow> c \<in> set post \<Longrightarrow>
     baddr b + bsize b \<le> baddr c \<and> 16 \<le> bsize b"
proof -
  assume l: "layout a (pre @ b # post) e" and c: "c \<in> set post"
  then obtain m where m: "layout m (b # post) e" by (auto simp: layout_append)
  from c have "post \<noteq> []" by auto
  with m have "baddr b = m" "16 \<le> bsize b" "layout (m + bsize b) post e"
    by (simp_all add: layout_cons_real)
  then show ?thesis using layout_bounds [of "m + bsize b" post e c] c by simp
qed

lemma layout_inj:
  assumes "layout a bl e" "b \<in> set bl" "c \<in> set bl" "baddr b = baddr c"
  shows "b = c"
proof (rule ccontr)
  assume ne: "b \<noteq> c"
  from assms(2) obtain pre post where bl: "bl = pre @ b # post" by (auto dest: split_list)
  with assms(3) ne consider "c \<in> set pre" | "c \<in> set post" by auto
  then show False
  proof cases
    case 1
    from layout_before [OF assms(1) [unfolded bl] 1] assms(4) show False by auto
  next
    case 2
    from layout_after [OF assms(1) [unfolded bl] 2] assms(4) show False by auto
  qed
qed

section \<open>Reading the blocks of a heap\<close>

lemma unat_lt64: "unat (x :: 64 word) < 2 ^ 64"
proof -
  have "unat x < 2 ^ LENGTH(64)" by (rule unsigned_less)
  then show ?thesis by simp
qed

lemma hdr_of_fields:
  assumes "16 dvd bsize b"
  shows "extract_size (hdr_of b) = of_nat (bsize b)"
    and "extract_alloc (hdr_of b) = balloc b"
    and "(drop_bit 1 (hdr_of b AND prev_alloc_mask) \<noteq> 0) = bpa b"
    and "(drop_bit 2 (hdr_of b AND prev_mini_mask) \<noteq> 0) = bpm b"
  using pack_fields [OF of_nat_16_low [OF assms]] by (simp_all add: hdr_of_def)

lemma blocks_rel_layout:
  "blocks_rel s bl \<Longrightarrow> layout (unat (heap_start s)) bl (unat (mem_brk s) - 8)"
  unfolding blocks_rel_def by blast

lemma blocks_rel_start_mod: "blocks_rel s bl \<Longrightarrow> unat (heap_start s) mod 16 = 8"
proof -
  assume "blocks_rel s bl"
  then have d: "16 dvd unat (mem_heap s)"
    and e: "unat (heap_start s) = unat (mem_heap s) + 8" by (simp_all add: blocks_rel_def)
  from d obtain k where "unat (mem_heap s) = 16 * k" by (auto simp: dvd_def)
  with e show ?thesis by simp
qed

lemma blocks_rel_bounds:
  assumes "blocks_rel s bl" "b \<in> set bl"
  shows "unat (heap_start s) \<le> baddr b \<and> baddr b + bsize b + 8 \<le> unat (mem_brk s) \<and>
         baddr b mod 16 = 8 \<and> 16 dvd bsize b \<and> unat (mem_brk s) < 2 ^ 64 \<and> 8 \<le> baddr b"
proof -
  have l: "layout (unat (heap_start s)) bl (unat (mem_brk s) - 8)"
    and b8: "8 \<le> unat (mem_brk s)" and hs: "unat (heap_start s) = unat (mem_heap s) + 8"
    using assms(1) unfolding blocks_rel_def by blast+
  from layout_bounds [OF l assms(2)] layout_aligned [OF l blocks_rel_start_mod [OF assms(1)] assms(2)]
    b8 hs unat_lt64 [of "mem_brk s"]
  show ?thesis by auto
qed

lemma layout_apart:
  assumes "layout a bl e" "b \<in> set bl" "c \<in> set bl" "b \<noteq> c"
  shows "(baddr c + bsize c \<le> baddr b \<and> 16 \<le> bsize c) \<or>
         (baddr b + bsize b \<le> baddr c \<and> 16 \<le> bsize b)"
proof -
  from assms(2) obtain pre post where bl: "bl = pre @ b # post" by (auto dest: split_list)
  with assms(3,4) consider "c \<in> set pre" | "c \<in> set post" by auto
  then show ?thesis
  proof cases
    case 1
    then show ?thesis using layout_before [of a pre b post e c] assms(1) bl by simp
  next
    case 2
    then show ?thesis using layout_after [of a pre b post e c] assms(1) bl by simp
  qed
qed

lemma layout_real_size:
  assumes "layout a bl e" "b \<in> set bl" "\<not> balloc b \<or> bsize b \<noteq> 0"
  shows "16 \<le> bsize b"
proof -
  have d: "16 dvd bsize b" using layout_bounds [OF assms(1,2)] by simp
  show ?thesis
  proof (cases "bsize b = 0")
    case False
    with d show ?thesis by (simp add: dvd_imp_le)
  next
    case True
    with assms(3) have na: "\<not> balloc b" by simp
    from assms(2) obtain pre post where bl: "bl = pre @ b # post" by (auto dest: split_list)
    show ?thesis
    proof (cases post)
      case Nil
      with assms(1) bl na show ?thesis by (simp add: layout_last)
    next
      case (Cons c cs)
      then have "post \<noteq> []" by simp
      with assms(1) bl show ?thesis by (auto simp: layout_append layout_cons_real)
    qed
  qed
qed

lemma blocks_rel_read:
  assumes R: "blocks_rel s bl" and b: "b \<in> set bl"
  shows "header s (of_nat (baddr b)) = hdr_of b"
    and "get_size s (of_nat (baddr b)) = of_nat (bsize b)"
    and "get_alloc s (of_nat (baddr b)) = balloc b"
    and "get_prev_alloc s (of_nat (baddr b)) = bpa b"
    and "get_prev_mini s (of_nat (baddr b)) = bpm b"
    and "find_next s (of_nat (baddr b)) = of_nat (baddr b + bsize b)"
    and "is_mini_block s (of_nat (baddr b)) = (bsize b = 16)"
proof -
  have d: "16 dvd bsize b" and lt: "bsize b < 2 ^ 64"
    using blocks_rel_bounds [OF R b] by auto
  show h: "header s (of_nat (baddr b)) = hdr_of b" using R b by (simp add: blocks_rel_def)
  show sz: "get_size s (of_nat (baddr b)) = of_nat (bsize b)"
    by (simp add: get_size_def h hdr_of_fields [OF d])
  show "get_alloc s (of_nat (baddr b)) = balloc b"
    by (simp add: get_alloc_def h hdr_of_fields [OF d])
  show "get_prev_alloc s (of_nat (baddr b)) = bpa b"
    unfolding get_prev_alloc_def h by (rule hdr_of_fields(3) [OF d])
  show "get_prev_mini s (of_nat (baddr b)) = bpm b"
    unfolding get_prev_mini_def h by (rule hdr_of_fields(4) [OF d])
  show "find_next s (of_nat (baddr b)) = of_nat (baddr b + bsize b)"
    by (simp add: find_next_def sz)
  show "is_mini_block s (of_nat (baddr b)) = (bsize b = 16)"
    using of_nat_inj64 [OF lt, of 16]
    by (simp add: is_mini_block_def sz min_block_size_def dsize_def wsize_def)
qed

lemma free_at_bounds:
  assumes R: "blocks_rel s bl" and f: "free_at bl x sz"
  shows "8 \<le> x \<and> x + sz + 8 \<le> unat (mem_brk s) \<and> 16 \<le> sz \<and> 16 dvd sz \<and> x mod 16 = 8 \<and>
         unat (mem_brk s) < 2 ^ 64"
proof -
  from f obtain b where b: "b \<in> set bl" "baddr b = x" "bsize b = sz" "\<not> balloc b"
    by (auto simp: free_at_def)
  from blocks_rel_bounds [OF R b(1)] layout_real_size [OF blocks_rel_layout [OF R] b(1)] b
  show ?thesis by auto
qed

lemma free_at_unique:
  assumes R: "blocks_rel s bl" and f: "free_at bl x sz" "free_at bl x sz'"
  shows "sz' = sz"
proof -
  from f obtain b c where b: "b \<in> set bl" "baddr b = x" "bsize b = sz"
    and c: "c \<in> set bl" "baddr c = x" "bsize c = sz'"
    by (auto simp: free_at_def)
  from layout_inj [OF blocks_rel_layout [OF R] b(1) c(1)] b c show ?thesis by auto
qed

section \<open>Writes that leave the blocks and the lists as they are\<close>

lemma blocks_rel_update:
  assumes R: "blocks_rel s bl"
    and g: "heap_start s' = heap_start s" "mem_heap s' = mem_heap s" "mem_brk s' = mem_brk s"
      "mem_max_addr s' = mem_max_addr s"
    and lay: "layout (unat (heap_start s)) bl' (unat (mem_brk s) - 8)"
    and t: "touch s s' A"
    and old: "\<And>b. b \<in> set bl' \<Longrightarrow> b \<in> set bl \<Longrightarrow>
        A \<inter> {baddr b..<baddr b + 8} = {} \<and>
        (\<not> balloc b \<and> bsize b \<noteq> 16 \<longrightarrow> A \<inter> {baddr b + bsize b - 8..<baddr b + bsize b} = {})"
    and new: "\<And>b. b \<in> set bl' \<Longrightarrow> b \<notin> set bl \<Longrightarrow>
        header s' (of_nat (baddr b)) = hdr_of b \<and>
        (\<not> balloc b \<and> bsize b \<noteq> 16 \<longrightarrow>
           load64 (mem s') (of_nat (baddr b + bsize b - 8)) = hdr_of b)"
  shows "blocks_rel s' bl'"
proof -
  have brk: "8 \<le> unat (mem_brk s)" "unat (mem_brk s) < 2 ^ 64"
    using R unat_lt64 [of "mem_brk s"] by (auto simp: blocks_rel_def)
  have "header s' (of_nat (baddr b)) = hdr_of b \<and>
        (\<not> balloc b \<and> bsize b \<noteq> 16 \<longrightarrow>
           load64 (mem s') (of_nat (baddr b + bsize b - 8)) = hdr_of b)"
    if b: "b \<in> set bl'" for b
  proof (cases "b \<in> set bl")
    case False
    then show ?thesis using new [OF b] by simp
  next
    case True
    have bd: "baddr b + bsize b \<le> unat (mem_brk s) - 8" using layout_bounds [OF lay b] by simp
    have sz: "\<not> balloc b \<Longrightarrow> 16 \<le> bsize b" using layout_real_size [OF lay b] by simp
    note o = old [OF b True]
    have h: "header s' (of_nat (baddr b)) = header s (of_nat (baddr b))"
      unfolding header_def using o bd brk by (intro load64_touch [OF t]) auto
    have f: "load64 (mem s') (of_nat (baddr b + bsize b - 8)) =
             load64 (mem s) (of_nat (baddr b + bsize b - 8))"
      if nb: "\<not> balloc b" "bsize b \<noteq> 16"
    proof (rule load64_touch [OF t])
      show "baddr b + bsize b - 8 + 8 \<le> 2 ^ 64" using bd brk sz [OF nb(1)] by simp
      have "baddr b + bsize b - 8 + 8 = baddr b + bsize b" using sz [OF nb(1)] by simp
      then show "A \<inter> {baddr b + bsize b - 8..<baddr b + bsize b - 8 + 8} = {}"
        using o nb by simp
    qed
    show ?thesis using R True h f by (auto simp: blocks_rel_def)
  qed
  then show ?thesis using R g lay by (simp add: blocks_rel_def)
qed

lemma seg_chain_frame:
  assumes "\<And>x. x \<in> set xs \<Longrightarrow> payload_next s' (of_nat x) = payload_next s (of_nat x)"
  shows "seg_chain s' h (map of_nat xs) = seg_chain s h (map of_nat xs)"
  by (rule seg_chain_next_cong) (auto simp: assms)

lemma prevs_ok_frame:
  assumes "\<And>x. x \<in> set (tl xs) \<Longrightarrow> payload_prev s' (of_nat x) = payload_prev s (of_nat x)"
  shows "prevs_ok s' xs = prevs_ok s xs"
  using assms
proof (induction xs)
  case Nil
  then show ?case by simp
next
  case (Cons x xs)
  show ?case
  proof (cases xs)
    case Nil
    then show ?thesis by simp
  next
    case (Cons y ys)
    have "prevs_ok s' xs = prevs_ok s xs" using Cons.prems Cons.IH local.Cons by simp
    moreover have "payload_prev s' (of_nat y) = payload_prev s (of_nat y)"
      using Cons.prems [of y] local.Cons by simp
    ultimately show ?thesis using local.Cons by simp
  qed
qed

lemma mini_chain_cong:
  "(\<And>x. x \<in> set xs \<Longrightarrow> mini_next s' x = mini_next s x) \<Longrightarrow>
   mini_chain s' h xs = mini_chain s h xs"
  by (induction xs arbitrary: h) auto

lemma mini_chain_frame:
  assumes "\<And>x. x \<in> set xs \<Longrightarrow> mini_next s' (of_nat x) = mini_next s (of_nat x)"
  shows "mini_chain s' h (map of_nat xs) = mini_chain s h (map of_nat xs)"
  by (rule mini_chain_cong) (auto simp: assms)

text \<open>The link words of a block at \<open>x\<close>.\<close>

lemma link_touch:
  assumes t: "touch s s' A" and x: "x + 24 \<le> 2 ^ 64"
  shows "A \<inter> {x + 8..<x + 16} = {} \<Longrightarrow> payload_prev s' (of_nat x) = payload_prev s (of_nat x)"
    and "A \<inter> {x + 8..<x + 16} = {} \<Longrightarrow> mini_next s' (of_nat x) = mini_next s (of_nat x)"
    and "A \<inter> {x + 16..<x + 24} = {} \<Longrightarrow> payload_next s' (of_nat x) = payload_next s (of_nat x)"
proof -
  have e: "(of_nat x :: 64 word) + 8 = of_nat (x + 8)" "(of_nat x :: 64 word) + 16 = of_nat (x + 16)"
    by simp_all
  show "A \<inter> {x + 8..<x + 16} = {} \<Longrightarrow> payload_prev s' (of_nat x) = payload_prev s (of_nat x)"
    unfolding payload_prev_def e using x by (intro load64_touch [OF t]) (simp_all add: add.assoc)
  show "A \<inter> {x + 8..<x + 16} = {} \<Longrightarrow> mini_next s' (of_nat x) = mini_next s (of_nat x)"
    unfolding mini_next_def e using x by (intro load64_touch [OF t]) (simp_all add: add.assoc)
  show "A \<inter> {x + 16..<x + 24} = {} \<Longrightarrow> payload_next s' (of_nat x) = payload_next s (of_nat x)"
    unfolding payload_next_def e using x by (intro load64_touch [OF t]) (simp_all add: add.assoc)
qed

section \<open>Chains of links\<close>

lemma seg_chain_chain: "seg_chain s h xs = chain (payload_next s) h xs"
  by (induction xs arbitrary: h) auto

lemma mini_chain_chain: "mini_chain s h xs = chain (mini_next s) h xs"
  by (induction xs arbitrary: h) auto

lemma chain_cong: "(\<And>x. x \<in> set xs \<Longrightarrow> f' x = f x) \<Longrightarrow> chain f' h xs = chain f h xs"
  by (induction xs arbitrary: h) auto

lemma chain_head: "chain f h xs \<Longrightarrow> h = (if xs = [] then 0 else hd xs)"
  by (cases xs) auto

lemma chain_suffix: "chain f h (as @ x # bs) \<Longrightarrow> chain f x (x # bs)"
  by (induction as arbitrary: h) auto

lemma chain_next_at: "chain f h (as @ x # bs) \<Longrightarrow> f x = (if bs = [] then 0 else hd bs)"
  using chain_suffix [of f h as x bs] chain_head [of f "f x" bs] by auto

lemma chain_remove:
  assumes "chain f h (ps @ x # ns)" "ps \<noteq> []"
    and "f' (last ps) = f x"
    and "\<And>y. y \<in> set (butlast ps) \<union> set ns \<Longrightarrow> f' y = f y"
  shows "chain f' h (ps @ ns)"
  using assms
proof (induction ps arbitrary: h)
  case Nil
  then show ?case by simp
next
  case (Cons p ps)
  note pr = Cons.prems and IH = Cons.IH
  show ?case
  proof (cases ps)
    case Nil
    have "chain f' (f x) ns = chain f (f x) ns" using pr(4) by (intro chain_cong) simp
    with pr Nil show ?thesis by auto
  next
    case (Cons q qs)
    then have ne: "ps \<noteq> []" by simp
    have "chain f' (f p) (ps @ ns)"
    proof (rule IH [OF _ ne])
      show "chain f (f p) (ps @ x # ns)" using pr(1) by simp
      show "f' (last ps) = f x" using pr(3) ne by simp
      show "\<And>y. y \<in> set (butlast ps) \<union> set ns \<Longrightarrow> f' y = f y" using pr(4) ne by auto
    qed
    moreover have "f' p = f p" using pr(4) [of p] ne by simp
    ultimately show ?thesis using pr(1) by simp
  qed
qed

lemma in_set_tl: "x \<in> set (tl xs) \<Longrightarrow> x \<in> set xs"
  by (cases xs) auto

lemma prevs_ok_tl: "prevs_ok s (x # xs) \<Longrightarrow> prevs_ok s xs"
  by (cases xs) auto

lemma prevs_ok_suffix: "prevs_ok s (as @ bs) \<Longrightarrow> prevs_ok s bs"
  by (induction as) (auto dest: prevs_ok_tl)

lemma prevs_ok_at:
  "prevs_ok s (ps @ x # ns) \<Longrightarrow> ps \<noteq> [] \<Longrightarrow> payload_prev s (of_nat x) = of_nat (last ps)"
proof (induction ps)
  case Nil
  then show ?case by simp
next
  case (Cons p ps)
  note pr = Cons.prems and IH = Cons.IH
  show ?case
  proof (cases ps)
    case Nil
    with pr show ?thesis by simp
  next
    case (Cons q qs)
    with pr have "prevs_ok s (ps @ x # ns)" by simp
    with IH Cons show ?thesis by simp
  qed
qed

lemma prevs_ok_remove:
  assumes "prevs_ok s (ps @ x # ns)" "ps \<noteq> []"
    and "ns \<noteq> [] \<Longrightarrow> payload_prev s' (of_nat (hd ns)) = of_nat (last ps)"
    and "\<And>y. y \<in> set (tl ps) \<union> set (tl ns) \<Longrightarrow>
           payload_prev s' (of_nat y) = payload_prev s (of_nat y)"
  shows "prevs_ok s' (ps @ ns)"
  using assms
proof (induction ps)
  case Nil
  then show ?case by simp
next
  case (Cons p ps)
  note pr = Cons.prems and IH = Cons.IH
  show ?case
  proof (cases ps)
    case Nil
    note psn = Nil
    show ?thesis
    proof (cases ns)
      case Nil
      with psn show ?thesis by simp
    next
      case (Cons n ns')
      have "prevs_ok s ns" using prevs_ok_suffix [of s "p # ps @ [x]" ns] pr(1) by simp
      moreover have "prevs_ok s' ns = prevs_ok s ns" using pr(4) by (intro prevs_ok_frame) simp
      ultimately show ?thesis using pr(3) Cons psn by simp
    qed
  next
    case (Cons q qs)
    then have ne: "ps \<noteq> []" by simp
    have "prevs_ok s' (ps @ ns)"
    proof (rule IH [OF _ ne])
      show "prevs_ok s (ps @ x # ns)" using pr(1) Cons by simp
      show "ns \<noteq> [] \<Longrightarrow> payload_prev s' (of_nat (hd ns)) = of_nat (last ps)"
        using pr(3) ne by simp
      show "\<And>y. y \<in> set (tl ps) \<union> set (tl ns) \<Longrightarrow>
           payload_prev s' (of_nat y) = payload_prev s (of_nat y)"
        using pr(4) by (auto dest: in_set_tl)
    qed
    moreover have "payload_prev s' (of_nat q) = payload_prev s (of_nat q)"
      using pr(4) [of q] Cons by simp
    ultimately show ?thesis using pr(1) Cons by simp
  qed
qed

section \<open>Frames for the lists\<close>

lemma bucket_rel_frame:
  assumes B: "bucket_rel s bl i xs" and R: "blocks_rel s bl"
    and g: "seg_list s' ! i = seg_list s ! i"
    and t: "touch s s' A"
    and keep: "\<And>x sz. x \<in> set xs \<Longrightarrow> free_at bl x sz \<Longrightarrow>
        free_at bl' x sz \<and> A \<inter> {x + 8..<x + sz} = {}"
  shows "bucket_rel s' bl' i xs"
proof -
  have fa: "\<exists>sz. free_at bl' x sz \<and> sz \<noteq> 16 \<and> find_class (of_nat sz) = i \<and> x + 24 \<le> 2 ^ 64 \<and>
      A \<inter> {x + 8..<x + 16} = {} \<and> A \<inter> {x + 16..<x + 24} = {}"
    if x: "x \<in> set xs" for x
  proof -
    from B x obtain sz where sz: "free_at bl x sz" "sz \<noteq> 16" "find_class (of_nat sz) = i"
      by (auto simp: bucket_rel_def)
    from free_at_bounds [OF R sz(1)] sz(2) have b: "32 \<le> sz" "x + 24 \<le> 2 ^ 64"
      by (auto simp: dvd_def)
    from keep [OF x sz(1)] have k: "free_at bl' x sz" "A \<inter> {x + 8..<x + sz} = {}" by auto
    from k(2) b(1) have "A \<inter> {x + 8..<x + 16} = {}" "A \<inter> {x + 16..<x + 24} = {}" by auto
    with sz k b show ?thesis by blast
  qed
  have nx: "payload_next s' (of_nat x) = payload_next s (of_nat x)"
    and pv: "payload_prev s' (of_nat x) = payload_prev s (of_nat x)"
    if x: "x \<in> set xs" for x
    using fa [OF x] link_touch [OF t, of x] by auto
  have "seg_chain s' (seg_list s' ! i) (map of_nat xs)"
    using B seg_chain_frame [of xs s' s, OF nx] by (simp add: bucket_rel_def g)
  moreover have "prevs_ok s' xs = prevs_ok s xs"
    by (rule prevs_ok_frame) (auto simp: pv dest: in_set_tl)
  ultimately show ?thesis using B fa unfolding bucket_rel_def by blast
qed

lemma minis_rel_frame:
  assumes M: "minis_rel s bl ml" and R: "blocks_rel s bl"
    and g: "mini_list s' = mini_list s"
    and t: "touch s s' A"
    and keep: "\<And>x sz. x \<in> set ml \<Longrightarrow> free_at bl x sz \<Longrightarrow>
        free_at bl' x sz \<and> A \<inter> {x + 8..<x + sz} = {}"
  shows "minis_rel s' bl' ml"
proof -
  have mn: "mini_next s' (of_nat x) = mini_next s (of_nat x) \<and> free_at bl' x 16"
    if x: "x \<in> set ml" for x
  proof -
    from M x have f: "free_at bl x 16" by (simp add: minis_rel_def)
    from keep [OF x f] have k: "free_at bl' x 16" "A \<inter> {x + 8..<x + 16} = {}" by auto
    from free_at_bounds [OF R f] have "x + 24 \<le> 2 ^ 64" by simp
    from link_touch(2) [OF t this k(2)] k(1) show ?thesis by simp
  qed
  have "mini_chain s' (mini_list s') (map of_nat ml)"
    using M mini_chain_frame [of ml s' s] mn by (simp add: minis_rel_def g)
  then show ?thesis using M mn by (simp add: minis_rel_def)
qed

lemma listed_setI:
  "i < length fls \<Longrightarrow> x \<in> set (fls ! i) \<Longrightarrow> x \<in> listed_set fls ml"
  "x \<in> set ml \<Longrightarrow> x \<in> listed_set fls ml"
  by (auto simp: listed_set_def)

lemma lists_ok_frame:
  assumes L: "lists_ok s bl S" and R: "blocks_rel s bl"
    and g: "seg_list s' = seg_list s" "mini_list s' = mini_list s"
    and t: "touch s s' A"
    and keep: "\<And>x sz. x \<in> S \<Longrightarrow> free_at bl x sz \<Longrightarrow>
        free_at bl' x sz \<and> A \<inter> {x + 8..<x + sz} = {}"
  shows "lists_ok s' bl' S"
proof -
  from L obtain fls ml where LR: "lists_rel s bl fls ml" and S: "listed_set fls ml = S"
    by (auto simp: lists_ok_def)
  have len: "length fls = LENGTH_seg" using LR by (simp add: lists_rel_def)
  have "bucket_rel s' bl' i (fls ! i)" if i: "i < LENGTH_seg" for i
  proof (rule bucket_rel_frame [OF _ R _ t])
    show "bucket_rel s bl i (fls ! i)" using LR i by (simp add: lists_rel_def)
    show "seg_list s' ! i = seg_list s ! i" by (simp add: g)
    fix x sz assume x: "x \<in> set (fls ! i)" and f: "free_at bl x sz"
    have "x \<in> S" using listed_setI(1) [of i fls x ml] x i len S by simp
    then show "free_at bl' x sz \<and> A \<inter> {x + 8..<x + sz} = {}" using keep f by blast
  qed
  moreover have "minis_rel s' bl' ml"
  proof (rule minis_rel_frame [OF _ R g(2) t])
    show "minis_rel s bl ml" using LR by (simp add: lists_rel_def)
    fix x sz assume x: "x \<in> set ml" and f: "free_at bl x sz"
    have "x \<in> S" using listed_setI(2) [of x ml fls] x S by simp
    then show "free_at bl' x sz \<and> A \<inter> {x + 8..<x + sz} = {}" using keep f by blast
  qed
  ultimately have "lists_rel s' bl' fls ml" using LR by (simp add: lists_rel_def g)
  then show ?thesis using S unfolding lists_ok_def by blast
qed

section \<open>Writes to the links of free blocks\<close>

lemma load64_store64_far:
  assumes "a + 8 \<le> b \<or> b + 8 \<le> a" "a + 8 \<le> 2 ^ 64" "b + 8 \<le> 2 ^ 64"
  shows "load64 (store64 m (of_nat a) w) (of_nat b) = load64 m (of_nat b)"
proof (rule load64_bytes_cong [OF assms(3)])
  fix x :: addr assume "b \<le> unat x" "unat x < b + 8"
  then have "\<not> (a \<le> unat x \<and> unat x < a + 8)" using assms(1) by auto
  then show "store64 m (of_nat a) w x = m x" using assms(2) by (simp add: store64_outside)
qed

lemma touch_store64_2:
  assumes "a + 8 \<le> 2 ^ 64" "b + 8 \<le> 2 ^ 64"
    and "mem s' = store64 (store64 (mem s) (of_nat a) v) (of_nat b) w"
  shows "touch s s' ({a..<a + 8} \<union> {b..<b + 8})"
proof -
  let ?s1 = "s\<lparr>mem := store64 (mem s) (of_nat a) v\<rparr>"
  have "touch s ?s1 {a..<a + 8}" by (rule touch_store64 [OF assms(1)]) simp
  moreover have "touch ?s1 s' {b..<b + 8}"
    by (rule touch_store64 [OF assms(2)]) (simp add: assms(3))
  ultimately show ?thesis by (rule touch_trans)
qed

lemma free_at_apart:
  assumes R: "blocks_rel s bl" and x: "free_at bl x z" and y: "free_at bl y zy" and ne: "x \<noteq> y"
  shows "x + z \<le> y \<or> y + zy \<le> x"
proof -
  from x obtain b where b: "b \<in> set bl" "baddr b = x" "bsize b = z" by (auto simp: free_at_def)
  from y obtain c where c: "c \<in> set bl" "baddr c = y" "bsize c = zy" by (auto simp: free_at_def)
  from ne b c have "b \<noteq> c" by auto
  from layout_apart [OF blocks_rel_layout [OF R] b(1) c(1) this] b c show ?thesis by auto
qed

lemma link_apart:
  assumes R: "blocks_rel s bl" and w: "free_at bl w z" and c: "c \<in> set bl"
  shows "{w + 8..<w + min z 24} \<inter> {baddr c..<baddr c + 8} = {}"
    and "\<not> balloc c \<Longrightarrow> bsize c \<noteq> 16 \<Longrightarrow>
         {w + 8..<w + min z 24} \<inter> {baddr c + bsize c - 8..<baddr c + bsize c} = {}"
    and "baddr c \<noteq> w \<Longrightarrow> {w + 8..<w + min z 24} \<inter> {baddr c..<baddr c + bsize c} = {}"
    and "balloc c \<Longrightarrow> {w + 8..<w + min z 24} \<inter> {baddr c + 8..<baddr c + bsize c} = {}"
proof -
  from w obtain d where d: "d \<in> set bl" "baddr d = w" "bsize d = z" "\<not> balloc d"
    by (auto simp: free_at_def)
  note l = blocks_rel_layout [OF R]
  have z: "16 \<le> z" "16 dvd z" using free_at_bounds [OF R w] by auto
  have z32: "z \<noteq> 16 \<Longrightarrow> 32 \<le> z" using z by (auto simp: dvd_def)
  have ap: "c \<noteq> d \<Longrightarrow> (baddr c + bsize c \<le> w \<and> 16 \<le> bsize c) \<or> w + z \<le> baddr c"
    using layout_apart [OF l d(1) c] d by auto
  have csz: "\<not> balloc c \<Longrightarrow> 16 \<le> bsize c" using layout_real_size [OF l c] by simp
  have cd: "baddr c \<noteq> w \<Longrightarrow> c \<noteq> d" "balloc c \<Longrightarrow> c \<noteq> d" using d by auto
  show "{w + 8..<w + min z 24} \<inter> {baddr c..<baddr c + 8} = {}"
  proof (cases "c = d")
    case True
    then show ?thesis using d by auto
  next
    case False
    from ap [OF this] show ?thesis by auto
  qed
  show "{w + 8..<w + min z 24} \<inter> {baddr c + bsize c - 8..<baddr c + bsize c} = {}"
    if nb: "\<not> balloc c" "bsize c \<noteq> 16"
  proof (cases "c = d")
    case True
    then show ?thesis using d z32 nb by auto
  next
    case False
    from ap [OF this] csz [OF nb(1)] show ?thesis by auto
  qed
  show "baddr c \<noteq> w \<Longrightarrow> {w + 8..<w + min z 24} \<inter> {baddr c..<baddr c + bsize c} = {}"
    using ap cd by fastforce
  show "balloc c \<Longrightarrow> {w + 8..<w + min z 24} \<inter> {baddr c + 8..<baddr c + bsize c} = {}"
    using ap cd by fastforce
qed

lemma link_frame:
  assumes R: "blocks_rel s bl" and t: "touch s s' A"
    and g: "heap_start s' = heap_start s" "mem_heap s' = mem_heap s" "mem_brk s' = mem_brk s"
      "mem_max_addr s' = mem_max_addr s"
    and w1: "free_at bl w1 z1" and w2: "free_at bl w2 z2"
    and A: "A \<subseteq> {w1 + 8..<w1 + min z1 24} \<union> {w2 + 8..<w2 + min z2 24}"
  shows "blocks_rel s' bl"
    and "\<And>y sz. free_at bl y sz \<Longrightarrow> y \<noteq> w1 \<Longrightarrow> y \<noteq> w2 \<Longrightarrow> A \<inter> {y + 8..<y + sz} = {}"
    and "touch s s' (- payload_bytes bl)"
proof -
  show "blocks_rel s' bl"
  proof (rule blocks_rel_update [OF R g blocks_rel_layout [OF R] t])
    fix b assume b: "b \<in> set bl"
    from link_apart(1) [OF R w1 b] link_apart(1) [OF R w2 b] A
    have h: "A \<inter> {baddr b..<baddr b + 8} = {}" by blast
    from link_apart(2) [OF R w1 b] link_apart(2) [OF R w2 b] A
    have f: "\<not> balloc b \<and> bsize b \<noteq> 16 \<longrightarrow> A \<inter> {baddr b + bsize b - 8..<baddr b + bsize b} = {}"
      by blast
    from h f show "A \<inter> {baddr b..<baddr b + 8} = {} \<and>
        (\<not> balloc b \<and> bsize b \<noteq> 16 \<longrightarrow> A \<inter> {baddr b + bsize b - 8..<baddr b + bsize b} = {})"
      by simp
  next
    fix b assume "b \<in> set bl" "b \<notin> set bl"
    then show "header s' (of_nat (baddr b)) = hdr_of b \<and>
        (\<not> balloc b \<and> bsize b \<noteq> 16 \<longrightarrow>
           load64 (mem s') (of_nat (baddr b + bsize b - 8)) = hdr_of b)" by simp
  qed
  show "A \<inter> {y + 8..<y + sz} = {}" if y: "free_at bl y sz" "y \<noteq> w1" "y \<noteq> w2" for y sz
  proof -
    from y(1) obtain c where c: "c \<in> set bl" "baddr c = y" "bsize c = sz"
      by (auto simp: free_at_def)
    from link_apart(3) [OF R w1 c(1)] link_apart(3) [OF R w2 c(1)] c y A
    have "A \<inter> {y..<y + sz} = {}" by blast
    then show ?thesis by auto
  qed
  have "A \<subseteq> - payload_bytes bl"
  proof
    fix z assume z: "z \<in> A"
    show "z \<in> - payload_bytes bl"
    proof
      assume "z \<in> payload_bytes bl"
      then obtain c where c: "c \<in> set bl" "balloc c" "z \<in> {baddr c + 8..<baddr c + bsize c}"
        by (auto simp: payload_bytes_def)
      from link_apart(4) [OF R w1 c(1,2)] link_apart(4) [OF R w2 c(1,2)] A z c(3)
      show False by blast
    qed
  qed
  then show "touch s s' (- payload_bytes bl)" by (rule touch_mono [OF t])
qed

section \<open>Inserting into the lists\<close>

lemma find_class_lt: "find_class z < LENGTH_seg"
  by (simp add: find_class_def LENGTH_seg_def)

lemma insert_free_mini_eq:
  "is_mini_block s X \<Longrightarrow>
   insert_free s X = s\<lparr>mini_list := X, mem := store64 (mem s) (X + 8) (mini_list s)\<rparr>"
  by (cases "mini_list s = 0") (simp_all add: insert_free_def set_mini_next_def Let_def)

lemma insert_free_mini_ok:
  assumes R: "blocks_rel s bl" and LR: "lists_rel s bl fls ml"
    and b: "b \<in> set bl" "\<not> balloc b" "bsize b = 16"
    and un: "baddr b \<notin> set ml"
  defines "s' \<equiv> insert_free s (of_nat (baddr b))"
  shows "blocks_rel s' bl \<and> lists_rel s' bl fls (baddr b # ml) \<and>
         heap_start s' = heap_start s \<and> mem_heap s' = mem_heap s \<and> mem_brk s' = mem_brk s \<and>
         mem_max_addr s' = mem_max_addr s \<and> touch s s' (- payload_bytes bl)"
proof -
  let ?x = "baddr b"
  have fa: "free_at bl ?x 16" using b by (auto simp: free_at_def)
  note bd = free_at_bounds [OF R fa]
  have mini: "is_mini_block s (of_nat ?x)" using blocks_rel_read(7) [OF R b(1)] b(3) by simp
  have eq: "s' = s\<lparr>mini_list := of_nat ?x,
                    mem := store64 (mem s) (of_nat (?x + 8)) (mini_list s)\<rparr>"
    unfolding s'_def insert_free_mini_eq [OF mini] by simp
  have g: "heap_start s' = heap_start s" "mem_heap s' = mem_heap s" "mem_brk s' = mem_brk s"
      "mem_max_addr s' = mem_max_addr s" by (simp_all add: eq)
  have t: "touch s s' {?x + 8..<?x + 8 + 8}"
    by (rule touch_store64 [where w = "mini_list s"]) (use bd in \<open>simp_all add: eq\<close>)
  have A: "{?x + 8..<?x + 8 + 8} \<subseteq> {?x + 8..<?x + min 16 24} \<union> {?x + 8..<?x + min 16 24}"
    by auto
  note lf = link_frame [OF R t g fa fa A]
  have len: "length fls = LENGTH_seg" using LR by (simp add: lists_rel_def)
  have bk: "bucket_rel s' bl i (fls ! i)" if i: "i < LENGTH_seg" for i
  proof (rule bucket_rel_frame [OF _ R _ t])
    show B: "bucket_rel s bl i (fls ! i)" using LR i by (simp add: lists_rel_def)
    show "seg_list s' ! i = seg_list s ! i" by (simp add: eq)
    fix y sz assume y: "y \<in> set (fls ! i)" and f: "free_at bl y sz"
    from B y obtain sz' where "free_at bl y sz'" "sz' \<noteq> 16" by (auto simp: bucket_rel_def)
    then have "y \<noteq> ?x" using free_at_unique [OF R fa, of sz'] by auto
    then show "free_at bl y sz \<and> {?x + 8..<?x + 8 + 8} \<inter> {y + 8..<y + sz} = {}"
      using lf(2) [OF f] f by simp
  qed
  have M: "minis_rel s bl ml" using LR by (simp add: lists_rel_def)
  have X0: "(of_nat ?x :: addr) \<noteq> 0" using bd by (simp add: of_nat_eq_0_64)
  have nx: "mini_next s' (of_nat ?x) = mini_list s"
    by (simp add: mini_next_def eq load64_store64_same)
  have mn: "mini_next s' (of_nat y) = mini_next s (of_nat y)" if y: "y \<in> set ml" for y
  proof -
    from M y have f: "free_at bl y 16" by (simp add: minis_rel_def)
    from y un have "y \<noteq> ?x" by auto
    from lf(2) [OF f this this] have "{?x + 8..<?x + 8 + 8} \<inter> {y + 8..<y + 16} = {}" .
    moreover from free_at_bounds [OF R f] have "y + 24 \<le> 2 ^ 64" by simp
    ultimately show ?thesis using link_touch(2) [OF t] by blast
  qed
  have "mini_chain s' (mini_list s) (map of_nat ml)"
    using M mini_chain_frame [of ml s' s, OF mn] by (simp add: minis_rel_def)
  then have "minis_rel s' bl (?x # ml)"
    using M fa un X0 nx by (simp add: minis_rel_def eq)
  then have "lists_rel s' bl fls (?x # ml)" using LR bk by (simp add: lists_rel_def eq)
  then show ?thesis using lf(1) lf(3) g by simp
qed

lemma insert_free_big_ok:
  assumes R: "blocks_rel s bl" and LR: "lists_rel s bl fls ml"
    and b: "b \<in> set bl" "\<not> balloc b" "bsize b \<noteq> 16"
    and un: "baddr b \<notin> set (fls ! find_class (of_nat (bsize b)))"
  defines "c \<equiv> find_class (of_nat (bsize b))"
  defines "s' \<equiv> insert_free s (of_nat (baddr b))"
  shows "blocks_rel s' bl \<and> lists_rel s' bl (fls[c := baddr b # fls ! c]) ml \<and>
         heap_start s' = heap_start s \<and> mem_heap s' = mem_heap s \<and> mem_brk s' = mem_brk s \<and>
         mem_max_addr s' = mem_max_addr s \<and> touch s s' (- payload_bytes bl)"
proof -
  let ?x = "baddr b" and ?z = "bsize b"
  let ?X = "of_nat (baddr b) :: addr"
  let ?xs = "fls ! c"
  have fa: "free_at bl ?x ?z" using b by (auto simp: free_at_def)
  note bd = free_at_bounds [OF R fa]
  have z32: "32 \<le> ?z" using bd b(3) by (auto simp: dvd_def)
  have x24: "?x + 24 \<le> 2 ^ 64" using bd z32 by simp
  have c: "c < LENGTH_seg" by (simp add: c_def find_class_lt)
  have len: "length fls = LENGTH_seg" "length (seg_list s) = LENGTH_seg"
    using LR by (simp_all add: lists_rel_def)
  have B: "bucket_rel s bl c ?xs" using LR c by (simp add: lists_rel_def)
  have M: "minis_rel s bl ml" using LR by (simp add: lists_rel_def)
  have nm: "\<not> is_mini_block s ?X" using blocks_rel_read(7) [OF R b(1)] b(3) by simp
  have cl: "find_class (get_size s ?X) = c" using blocks_rel_read(2) [OF R b(1)] by (simp add: c_def)
  have X0: "?X \<noteq> 0" using bd by (simp add: of_nat_eq_0_64)
  have ch: "seg_chain s (seg_list s ! c) (map of_nat ?xs)" using B by (simp add: bucket_rel_def)
  have hd: "seg_list s ! c = (if ?xs = [] then 0 else of_nat (hd ?xs))"
    using chain_head [of "payload_next s" "seg_list s ! c" "map of_nat ?xs"] ch
    by (simp add: seg_chain_chain hd_map)
  have other_x: "y \<noteq> ?x" if "y \<in> set (fls ! i)" "i < LENGTH_seg" for y i
  proof (cases "i = c")
    case True
    with that un show ?thesis by (auto simp: c_def)
  next
    case False
    from LR that obtain sz where "free_at bl y sz" "find_class (of_nat sz) = i"
      by (auto simp: lists_rel_def bucket_rel_def)
    with False show ?thesis using free_at_unique [OF R fa, of sz] by (auto simp: c_def)
  qed
  have mini_x: "y \<noteq> ?x" if "y \<in> set ml" for y
    using M that free_at_unique [OF R fa, of 16] b(3) by (auto simp: minis_rel_def)
  show ?thesis
  proof (cases ?xs)
    case Nil
    have h0: "seg_list s ! c = 0" using hd Nil by simp
    have eq: "s' = s\<lparr>seg_list := (seg_list s)[c := ?X],
        mem := store64 (store64 (mem s) (of_nat (?x + 16)) 0) (of_nat (?x + 8)) 0\<rparr>"
      unfolding s'_def using insert_free_nonmini_empty [OF nm] h0 by (simp add: cl)
    have m': "mem s' = store64 (store64 (mem s) (of_nat (?x + 16)) 0) (of_nat (?x + 8)) 0"
      by (simp add: eq)
    have g: "heap_start s' = heap_start s" "mem_heap s' = mem_heap s" "mem_brk s' = mem_brk s"
      "mem_max_addr s' = mem_max_addr s" by (simp_all add: eq)
    have t: "touch s s' ({?x + 16..<?x + 16 + 8} \<union> {?x + 8..<?x + 8 + 8})"
      by (rule touch_store64_2 [OF _ _ m']) (use x24 in simp_all)
    have A: "{?x + 16..<?x + 16 + 8} \<union> {?x + 8..<?x + 8 + 8}
        \<subseteq> {?x + 8..<?x + min ?z 24} \<union> {?x + 8..<?x + min ?z 24}" using z32 by auto
    note lf = link_frame [OF R t g fa fa A]
    have nx: "payload_next s' ?X = 0"
    proof -
      have "load64 (mem s') (of_nat (?x + 16)) = 0" unfolding m'
        by (subst load64_store64_far) (use x24 in \<open>simp_all add: load64_store64_same\<close>)
      then show ?thesis by (simp add: payload_next_def)
    qed
    have bk: "bucket_rel s' bl i ((fls[c := ?x # ?xs]) ! i)" if i: "i < LENGTH_seg" for i
    proof (cases "i = c")
      case True
      have "seg_list s' ! c = ?X" using c len by (simp add: eq)
      then show ?thesis using True Nil nx X0 fa b(3) c len
        by (auto simp: bucket_rel_def c_def)
    next
      case False
      have "bucket_rel s' bl i (fls ! i)"
      proof (rule bucket_rel_frame [OF _ R _ t])
        show "bucket_rel s bl i (fls ! i)" using LR i by (simp add: lists_rel_def)
        show "seg_list s' ! i = seg_list s ! i" using False by (simp add: eq)
        fix y sz assume y: "y \<in> set (fls ! i)" and f: "free_at bl y sz"
        from lf(2) [OF f] other_x [OF y i] f
        show "free_at bl y sz \<and>
          ({?x + 16..<?x + 16 + 8} \<union> {?x + 8..<?x + 8 + 8}) \<inter> {y + 8..<y + sz} = {}" by simp
      qed
      then show ?thesis using False by simp
    qed
    have "minis_rel s' bl ml"
    proof (rule minis_rel_frame [OF M R _ t])
      show "mini_list s' = mini_list s" by (simp add: eq)
      fix y sz assume y: "y \<in> set ml" and f: "free_at bl y sz"
      from lf(2) [OF f] mini_x [OF y] f
      show "free_at bl y sz \<and>
        ({?x + 16..<?x + 16 + 8} \<union> {?x + 8..<?x + 8 + 8}) \<inter> {y + 8..<y + sz} = {}" by simp
    qed
    then have "lists_rel s' bl (fls[c := ?x # ?xs]) ml"
      using bk len by (simp add: lists_rel_def eq)
    then show ?thesis using lf(1) lf(3) g by simp
  next
    case (Cons h hs)
    let ?H = "of_nat h :: addr"
    have hH: "seg_list s ! c = ?H" using hd Cons by simp
    from B Cons obtain zh where zh: "free_at bl h zh" "zh \<noteq> 16"
      by (auto simp: bucket_rel_def)
    note bh = free_at_bounds [OF R zh(1)]
    have zh32: "32 \<le> zh" using bh zh(2) by (auto simp: dvd_def)
    have h24: "h + 24 \<le> 2 ^ 64" using bh zh32 by simp
    have hx: "h \<noteq> ?x" using un Cons by (auto simp: c_def)
    have H0: "?H \<noteq> 0" using bh by (simp add: of_nat_eq_0_64)
    have ap: "?x + ?z \<le> h \<or> h + zh \<le> ?x" using free_at_apart [OF R fa zh(1)] hx by auto
    have eq: "s' = s\<lparr>seg_list := (seg_list s)[c := ?X],
        mem := store64 (store64 (mem s) (of_nat (h + 8)) ?X) (of_nat (?x + 16)) ?H\<rparr>"
      unfolding s'_def using insert_free_nonmini_cons [OF nm] hH H0 by (simp add: cl)
    have m': "mem s' = store64 (store64 (mem s) (of_nat (h + 8)) ?X) (of_nat (?x + 16)) ?H"
      by (simp add: eq)
    have g: "heap_start s' = heap_start s" "mem_heap s' = mem_heap s" "mem_brk s' = mem_brk s"
      "mem_max_addr s' = mem_max_addr s" by (simp_all add: eq)
    let ?A = "{h + 8..<h + 8 + 8} \<union> {?x + 16..<?x + 16 + 8}"
    have t: "touch s s' ?A"
      by (rule touch_store64_2 [OF _ _ m']) (use x24 h24 in simp_all)
    have A: "?A \<subseteq> {?x + 8..<?x + min ?z 24} \<union> {h + 8..<h + min zh 24}"
      using z32 zh32 by auto
    note lf = link_frame [OF R t g fa zh(1) A]
    have nx: "payload_next s' ?X = ?H"
    proof -
      have "load64 (mem s') (of_nat (?x + 16)) = ?H" unfolding m'
        by (rule load64_store64_same)
      then show ?thesis by (simp add: payload_next_def)
    qed
    have pv: "payload_prev s' ?H = ?X"
    proof -
      have "load64 (mem s') (of_nat (h + 8)) = ?X" unfolding m'
        by (subst load64_store64_far) (use x24 h24 ap z32 zh32 in \<open>auto simp: load64_store64_same\<close>)
      then show ?thesis by (simp add: payload_prev_def)
    qed
    have fr: "?A \<inter> {y + 8..<y + sz} = {}" if "free_at bl y sz" "y \<noteq> ?x" "y \<noteq> h" for y sz
      using lf(2) [OF that] .
    have inb: "\<exists>sz. free_at bl y sz \<and> 32 \<le> sz \<and> y + 24 \<le> 2 ^ 64" if y: "y \<in> set ?xs" for y
    proof -
      from B y obtain sz where sz: "free_at bl y sz" "sz \<noteq> 16" by (auto simp: bucket_rel_def)
      from free_at_bounds [OF R sz(1)] sz(2) have "32 \<le> sz" "y + 24 \<le> 2 ^ 64"
        by (auto simp: dvd_def)
      with sz show ?thesis by blast
    qed
    have nxs: "payload_next s' (of_nat y) = payload_next s (of_nat y)" if y: "y \<in> set ?xs" for y
    proof -
      from inb [OF y] obtain sz where sz: "free_at bl y sz" "32 \<le> sz" "y + 24 \<le> 2 ^ 64" by blast
      have "?A \<inter> {y + 16..<y + 24} = {}"
      proof (cases "y = h")
        case True
        then show ?thesis using ap z32 zh32 by auto
      next
        case False
        have "y \<noteq> ?x" using y un by (auto simp: c_def)
        from fr [OF sz(1) this False] sz(2) show ?thesis by auto
      qed
      then show ?thesis using link_touch(3) [OF t sz(3)] by simp
    qed
    have dist: "distinct ?xs" using B by (simp add: bucket_rel_def)
    have pvs: "payload_prev s' (of_nat y) = payload_prev s (of_nat y)" if y: "y \<in> set hs" for y
    proof -
      have yx: "y \<in> set ?xs" using y Cons by simp
      from inb [OF yx] obtain sz where sz: "free_at bl y sz" "32 \<le> sz" "y + 24 \<le> 2 ^ 64" by blast
      have "y \<noteq> h" using dist Cons y by auto
      moreover have "y \<noteq> ?x" using yx un by (auto simp: c_def)
      ultimately have "?A \<inter> {y + 8..<y + 16} = {}" using fr [OF sz(1)] sz(2) by auto
      then show ?thesis using link_touch(1) [OF t sz(3)] by simp
    qed
    have bk: "bucket_rel s' bl i ((fls[c := ?x # ?xs]) ! i)" if i: "i < LENGTH_seg" for i
    proof (cases "i = c")
      case True
      have sl: "seg_list s' ! c = ?X" using c len by (simp add: eq)
      have "seg_chain s' ?H (map of_nat ?xs) = seg_chain s ?H (map of_nat ?xs)"
        by (rule seg_chain_frame) (rule nxs)
      then have c1: "seg_chain s' ?X (map of_nat (?x # ?xs))" using ch hH nx X0 by simp
      have "prevs_ok s' ?xs = prevs_ok s ?xs"
        by (rule prevs_ok_frame) (use pvs Cons in auto)
      then have c2: "prevs_ok s' (?x # ?xs)" using B pv Cons by (simp add: bucket_rel_def)
      have c3: "distinct (?x # ?xs)" using dist un by (simp add: c_def)
      have c4: "\<forall>y\<in>set (?x # ?xs). \<exists>sz. free_at bl y sz \<and> sz \<noteq> 16 \<and> find_class (of_nat sz) = c"
        using B fa b(3) by (auto simp: bucket_rel_def c_def)
      show ?thesis using True c1 c2 c3 c4 sl c len unfolding bucket_rel_def by simp
    next
      case False
      have "bucket_rel s' bl i (fls ! i)"
      proof (rule bucket_rel_frame [OF _ R _ t])
        show Bi: "bucket_rel s bl i (fls ! i)" using LR i by (simp add: lists_rel_def)
        show "seg_list s' ! i = seg_list s ! i" using False by (simp add: eq)
        fix y sz assume y: "y \<in> set (fls ! i)" and f: "free_at bl y sz"
        from Bi y obtain sz' where s': "free_at bl y sz'" "find_class (of_nat sz') = i"
          by (auto simp: bucket_rel_def)
        from B Cons obtain zh' where "free_at bl h zh'" "find_class (of_nat zh') = c"
          by (auto simp: bucket_rel_def)
        with s' False have "y \<noteq> h" using free_at_unique [OF R s'(1), of zh'] by auto
        from fr [OF f other_x [OF y i] this] f
        show "free_at bl y sz \<and> ?A \<inter> {y + 8..<y + sz} = {}" by simp
      qed
      then show ?thesis using False by simp
    qed
    have "minis_rel s' bl ml"
    proof (rule minis_rel_frame [OF M R _ t])
      show "mini_list s' = mini_list s" by (simp add: eq)
      fix y sz assume y: "y \<in> set ml" and f: "free_at bl y sz"
      from M y have "free_at bl y 16" by (simp add: minis_rel_def)
      then have "y \<noteq> h" using free_at_unique [OF R zh(1), of 16] zh(2) by auto
      from fr [OF f mini_x [OF y] this] f
      show "free_at bl y sz \<and> ?A \<inter> {y + 8..<y + sz} = {}" by simp
    qed
    then have "lists_rel s' bl (fls[c := ?x # ?xs]) ml"
      using bk len by (simp add: lists_rel_def eq)
    then show ?thesis using lf(1) lf(3) g by simp
  qed
qed

lemma listed_set_cons_mini: "listed_set fls (x # ml) = insert x (listed_set fls ml)"
  by (auto simp: listed_set_def)

lemma listed_set_update:
  "c < length fls \<Longrightarrow> set v = insert x (set (fls ! c)) \<Longrightarrow>
   listed_set (fls[c := v]) ml = insert x (listed_set fls ml)"
  by (auto simp: listed_set_def nth_list_update split: if_splits)

lemma lists_rel_in_listed:
  assumes "lists_rel s bl fls ml"
  shows "set ml \<subseteq> listed_set fls ml" and "i < LENGTH_seg \<Longrightarrow> set (fls ! i) \<subseteq> listed_set fls ml"
  using assms by (auto simp: listed_set_def lists_rel_def)

lemma insert_free_ok:
  assumes R: "blocks_rel s bl" and L: "lists_ok s bl S"
    and b: "b \<in> set bl" "\<not> balloc b" and un: "baddr b \<notin> S"
  defines "s' \<equiv> insert_free s (of_nat (baddr b))"
  shows "blocks_rel s' bl \<and> lists_ok s' bl (insert (baddr b) S) \<and>
         heap_start s' = heap_start s \<and> mem_heap s' = mem_heap s \<and> mem_brk s' = mem_brk s \<and>
         mem_max_addr s' = mem_max_addr s \<and> touch s s' (- payload_bytes bl)"
proof -
  from L obtain fls ml where LR: "lists_rel s bl fls ml" and S: "listed_set fls ml = S"
    by (auto simp: lists_ok_def)
  have len: "length fls = LENGTH_seg" using LR by (simp add: lists_rel_def)
  show ?thesis
  proof (cases "bsize b = 16")
    case True
    have "baddr b \<notin> set ml" using un S lists_rel_in_listed(1) [OF LR] by auto
    from insert_free_mini_ok [OF R LR b True this] listed_set_cons_mini [of fls "baddr b" ml] S
    show ?thesis unfolding s'_def lists_ok_def by metis
  next
    case False
    let ?c = "find_class (of_nat (bsize b))"
    have c: "?c < LENGTH_seg" by (rule find_class_lt)
    have "baddr b \<notin> set (fls ! ?c)" using un S lists_rel_in_listed(2) [OF LR c] by auto
    from insert_free_big_ok [OF R LR b False this]
      listed_set_update [of ?c fls "baddr b # fls ! ?c" "baddr b" ml] S c len
    show ?thesis unfolding s'_def lists_ok_def by (metis list.simps(15))
  qed
qed

section \<open>Removing from the lists\<close>

lemma remove_free_big_eq:
  "\<not> is_mini_block s X \<Longrightarrow>
   remove_free s X =
     (if X = seg_list s ! find_class (get_size s X)
      then Some (s\<lparr>seg_list := (seg_list s)[find_class (get_size s X) := payload_next s X]\<rparr>)
      else if payload_next s X = 0 then Some (set_payload_next s (payload_prev s X) 0)
      else Some (set_payload_prev (set_payload_next s (payload_prev s X) (payload_next s X))
                   (payload_next s X) (payload_prev s X)))"
  by (simp add: remove_free_def is_head_def Let_def)

lemma remove_free_mini_eq:
  "is_mini_block s X \<Longrightarrow>
   remove_free s X =
     (if mini_next s (mini_list s) = 0 then Some (s\<lparr>mini_list := 0\<rparr>)
      else if X = mini_list s then Some (s\<lparr>mini_list := mini_next s (mini_list s)\<rparr>)
      else do { cur \<leftarrow> mini_pred s (mini_list s) X;
                Some (set_mini_next s cur (mini_next s X)) })"
  by (simp add: remove_free_def Let_def)

lemma distinct_butlast_last: "distinct ps \<Longrightarrow> y \<in> set (butlast ps) \<Longrightarrow> y \<noteq> last ps"
proof -
  assume d: "distinct ps" and y: "y \<in> set (butlast ps)"
  then have ne: "ps \<noteq> []" by auto
  have "distinct (butlast ps @ [last ps])" using d ne by simp
  then show ?thesis using y by auto
qed

lemma of_nat_mem:
  assumes "x < 2 ^ 64" "\<forall>y\<in>set ys. y < 2 ^ 64"
  shows "((of_nat x :: addr) \<in> set (map of_nat ys)) = (x \<in> set ys)"
  using assms by (auto simp: of_nat_inj64)

lemma bucket_elem:
  assumes "bucket_rel s bl i xs" "blocks_rel s bl" "y \<in> set xs"
  shows "\<exists>sz. free_at bl y sz \<and> sz \<noteq> 16 \<and> find_class (of_nat sz) = i \<and> 32 \<le> sz \<and>
              y + 24 \<le> 2 ^ 64 \<and> 8 \<le> y \<and> y < 2 ^ 64"
proof -
  from assms(1,3) obtain sz where sz: "free_at bl y sz" "sz \<noteq> 16" "find_class (of_nat sz) = i"
    by (auto simp: bucket_rel_def)
  from free_at_bounds [OF assms(2) sz(1)] sz(2)
  have "32 \<le> sz" "y + 24 \<le> 2 ^ 64" "8 \<le> y" "y < 2 ^ 64" by (auto simp: dvd_def)
  with sz show ?thesis by blast
qed

lemma mini_elem:
  assumes "minis_rel s bl ml" "blocks_rel s bl" "y \<in> set ml"
  shows "free_at bl y 16 \<and> y + 24 \<le> 2 ^ 64 \<and> 8 \<le> y \<and> y < 2 ^ 64"
proof -
  from assms(1,3) have f: "free_at bl y 16" by (simp add: minis_rel_def)
  from free_at_bounds [OF assms(2) f] f show ?thesis by auto
qed

lemma mini_pred_chain:
  assumes "chain (mini_next s) h (ps @ X # ns)" "ps \<noteq> []" "X \<notin> set ps"
  shows "mini_pred s h X = Some (last ps)"
  using assms
proof (induction ps arbitrary: h)
  case Nil
  then show ?case by simp
next
  case (Cons p ps)
  note pr = Cons.prems and IH = Cons.IH
  show ?case
  proof (cases ps)
    case Nil
    with pr have "h = p" "mini_next s p = X" by auto
    then show ?thesis using Nil by (subst mini_pred.simps) simp
  next
    case (Cons q qs)
    with pr have h: "h = p" "mini_next s p = q" "q \<noteq> X" by auto
    have "mini_pred s q X = Some (last ps)"
      using IH [of q] pr Cons by auto
    then show ?thesis using h Cons by (subst mini_pred.simps) simp
  qed
qed

lemma blocks_rel_mem_eq:
  assumes "blocks_rel s bl" "mem s' = mem s" "heap_start s' = heap_start s"
    "mem_heap s' = mem_heap s" "mem_brk s' = mem_brk s" "mem_max_addr s' = mem_max_addr s"
  shows "blocks_rel s' bl"
  using assms(1) unfolding blocks_rel_def header_def assms(2-6) .

lemma listed_set_remove:
  "c < length fls \<Longrightarrow> set v = set (fls ! c) - {x} \<Longrightarrow> x \<notin> set ml \<Longrightarrow>
   (\<forall>i<length fls. i \<noteq> c \<longrightarrow> x \<notin> set (fls ! i)) \<Longrightarrow>
   listed_set (fls[c := v]) ml = listed_set fls ml - {x}"
  by (auto simp: listed_set_def nth_list_update split: if_splits)

lemma listed_set_remove_mini:
  "set v = set ml - {x} \<Longrightarrow> (\<forall>i<length fls. x \<notin> set (fls ! i)) \<Longrightarrow>
   listed_set fls v = listed_set fls ml - {x}"
  by (auto simp: listed_set_def)

lemma remove_big_core:
  assumes R: "blocks_rel s bl" and LR: "lists_rel s bl fls ml" and c: "c < LENGTH_seg"
    and sp: "fls ! c = ps @ x # ns" "ps \<noteq> []"
    and t: "touch s s' A"
    and g: "heap_start s' = heap_start s" "mem_heap s' = mem_heap s" "mem_brk s' = mem_brk s"
      "mem_max_addr s' = mem_max_addr s"
    and sl: "seg_list s' = seg_list s" "mini_list s' = mini_list s"
    and w: "w1 \<in> set (fls ! c)" "w2 \<in> set (fls ! c)"
    and A: "A \<subseteq> {w1 + 16..<w1 + 24} \<union> {w2 + 8..<w2 + 16}"
    and nxP: "payload_next s' (of_nat (last ps)) = payload_next s (of_nat x)"
    and pvN: "ns \<noteq> [] \<Longrightarrow> payload_prev s' (of_nat (hd ns)) = of_nat (last ps)"
    and d1: "\<And>y. y \<in> set (butlast ps) \<union> set ns \<Longrightarrow> A \<inter> {y + 16..<y + 24} = {}"
    and d2: "\<And>y. y \<in> set (tl ps) \<union> set (tl ns) \<Longrightarrow> A \<inter> {y + 8..<y + 16} = {}"
  shows "blocks_rel s' bl \<and> lists_rel s' bl (fls[c := ps @ ns]) ml \<and>
         touch s s' (- payload_bytes bl)"
proof -
  have len: "length fls = LENGTH_seg" "length (seg_list s) = LENGTH_seg"
    using LR by (simp_all add: lists_rel_def)
  have B: "bucket_rel s bl c (fls ! c)" using LR c by (simp add: lists_rel_def)
  have M: "minis_rel s bl ml" using LR by (simp add: lists_rel_def)
  from bucket_elem [OF B R w(1)] obtain z1 where z1: "free_at bl w1 z1" "z1 \<noteq> 16"
    "find_class (of_nat z1) = c" "32 \<le> z1" by blast
  from bucket_elem [OF B R w(2)] obtain z2 where z2: "free_at bl w2 z2" "z2 \<noteq> 16"
    "find_class (of_nat z2) = c" "32 \<le> z2" by blast
  have A': "A \<subseteq> {w1 + 8..<w1 + min z1 24} \<union> {w2 + 8..<w2 + min z2 24}"
    using A z1(4) z2(4) by auto
  note lf = link_frame [OF R t g z1(1) z2(1) A']
  have el: "y + 24 \<le> 2 ^ 64" if "y \<in> set (fls ! c)" for y
    using bucket_elem [OF B R that] by blast
  have ch: "chain (payload_next s) (seg_list s ! c) (map of_nat ps @ of_nat x # map of_nat ns)"
    using B sp(1) by (simp add: bucket_rel_def seg_chain_chain)
  have "chain (payload_next s') (seg_list s ! c) (map of_nat ps @ map of_nat ns)"
  proof (rule chain_remove [OF ch])
    show "map of_nat ps \<noteq> []" using sp(2) by simp
    show "payload_next s' (last (map of_nat ps)) = payload_next s (of_nat x)"
      using nxP sp(2) by (simp add: last_map)
    fix Y :: addr assume "Y \<in> set (butlast (map of_nat ps)) \<union> set (map of_nat ns)"
    then obtain y where y: "Y = of_nat y" "y \<in> set (butlast ps) \<union> set ns"
      by (auto simp: map_butlast [symmetric])
    then have "y \<in> set (fls ! c)" using sp(1) by (auto dest: in_set_butlastD)
    from link_touch(3) [OF t el [OF this] d1 [OF y(2)]] y(1)
    show "payload_next s' Y = payload_next s Y" by simp
  qed
  then have c1: "seg_chain s' (seg_list s' ! c) (map of_nat (ps @ ns))"
    by (simp add: seg_chain_chain sl)
  have c2: "prevs_ok s' (ps @ ns)"
  proof (rule prevs_ok_remove [OF _ sp(2) pvN])
    show "prevs_ok s (ps @ x # ns)" using B sp(1) by (simp add: bucket_rel_def)
    fix y assume y: "y \<in> set (tl ps) \<union> set (tl ns)"
    then have "y \<in> set (fls ! c)" using sp(1) by (auto dest: in_set_tl)
    from link_touch(1) [OF t el [OF this] d2 [OF y]]
    show "payload_prev s' (of_nat y) = payload_prev s (of_nat y)" .
  qed
  have c3: "distinct (ps @ ns)" using B sp(1) by (simp add: bucket_rel_def)
  have c4: "\<forall>y\<in>set (ps @ ns). \<exists>sz. free_at bl y sz \<and> sz \<noteq> 16 \<and> find_class (of_nat sz) = c"
    using B sp(1) by (auto simp: bucket_rel_def)
  have bk: "bucket_rel s' bl i ((fls[c := ps @ ns]) ! i)" if i: "i < LENGTH_seg" for i
  proof (cases "i = c")
    case True
    then show ?thesis using c1 c2 c3 c4 c len unfolding bucket_rel_def by simp
  next
    case False
    have "bucket_rel s' bl i (fls ! i)"
    proof (rule bucket_rel_frame [OF _ R _ t])
      show Bi: "bucket_rel s bl i (fls ! i)" using LR i by (simp add: lists_rel_def)
      show "seg_list s' ! i = seg_list s ! i" by (simp add: sl)
      fix y sz assume y: "y \<in> set (fls ! i)" and f: "free_at bl y sz"
      from bucket_elem [OF Bi R y] obtain sz' where s': "free_at bl y sz'"
        "find_class (of_nat sz') = i" by blast
      have "y \<noteq> w1" using free_at_unique [OF R s'(1), of z1] z1 s' False by auto
      moreover have "y \<noteq> w2" using free_at_unique [OF R s'(1), of z2] z2 s' False by auto
      ultimately show "free_at bl y sz \<and> A \<inter> {y + 8..<y + sz} = {}" using lf(2) [OF f] f by simp
    qed
    then show ?thesis using False by simp
  qed
  have "minis_rel s' bl ml"
  proof (rule minis_rel_frame [OF M R sl(2) t])
    fix y sz assume y: "y \<in> set ml" and f: "free_at bl y sz"
    from mini_elem [OF M R y] have f16: "free_at bl y 16" by simp
    have "y \<noteq> w1" using free_at_unique [OF R f16, of z1] z1 by auto
    moreover have "y \<noteq> w2" using free_at_unique [OF R f16, of z2] z2 by auto
    ultimately show "free_at bl y sz \<and> A \<inter> {y + 8..<y + sz} = {}" using lf(2) [OF f] f by simp
  qed
  then have "lists_rel s' bl (fls[c := ps @ ns]) ml"
    using bk len by (simp add: lists_rel_def sl)
  then show ?thesis using lf(1) lf(3) by simp
qed

lemma remove_free_big_ok:
  assumes R: "blocks_rel s bl" and LR: "lists_rel s bl fls ml"
    and b: "b \<in> set bl" "\<not> balloc b" "bsize b \<noteq> 16"
    and inl: "baddr b \<in> set (fls ! find_class (of_nat (bsize b)))"
  defines "c \<equiv> find_class (of_nat (bsize b))"
  shows "\<exists>s'. remove_free s (of_nat (baddr b)) = Some s' \<and> blocks_rel s' bl \<and>
         lists_rel s' bl (fls[c := remove1 (baddr b) (fls ! c)]) ml \<and>
         heap_start s' = heap_start s \<and> mem_heap s' = mem_heap s \<and> mem_brk s' = mem_brk s \<and>
         mem_max_addr s' = mem_max_addr s \<and> touch s s' (- payload_bytes bl)"
proof -
  let ?x = "baddr b" and ?z = "bsize b"
  let ?X = "of_nat (baddr b) :: addr"
  let ?xs = "fls ! c"
  have c: "c < LENGTH_seg" by (simp add: c_def find_class_lt)
  have len: "length fls = LENGTH_seg" "length (seg_list s) = LENGTH_seg"
    using LR by (simp_all add: lists_rel_def)
  have B: "bucket_rel s bl c ?xs" using LR c by (simp add: lists_rel_def)
  have M: "minis_rel s bl ml" using LR by (simp add: lists_rel_def)
  have nm: "\<not> is_mini_block s ?X" using blocks_rel_read(7) [OF R b(1)] b(3) by simp
  have cl: "find_class (get_size s ?X) = c" using blocks_rel_read(2) [OF R b(1)] by (simp add: c_def)
  have dist: "distinct ?xs" using B by (simp add: bucket_rel_def)
  from inl obtain ps ns where sp: "?xs = ps @ ?x # ns" by (auto simp: c_def dest: split_list)
  have nin: "?x \<notin> set ps" "?x \<notin> set ns" "set ps \<inter> set ns = {}" "distinct ps" "distinct ns"
    using dist sp by auto
  have rm: "remove1 ?x ?xs = ps @ ns" using sp nin by (simp add: remove1_append)
  have el: "\<exists>sz. free_at bl y sz \<and> 32 \<le> sz \<and> y + 24 \<le> 2 ^ 64 \<and> 8 \<le> y \<and> y < 2 ^ 64"
    if "y \<in> set ?xs" for y using bucket_elem [OF B R that] by blast
  have nz: "(of_nat y :: addr) \<noteq> 0" if "y \<in> set ?xs" for y
    using el [OF that] by (auto simp: of_nat_eq_0_64)
  have inj: "((of_nat y :: addr) = of_nat y') = (y = y')" if "y \<in> set ?xs" "y' \<in> set ?xs" for y y'
    using el [OF that(1)] el [OF that(2)] by (auto simp: of_nat_inj64)
  have ap2: "y = w \<or> y + 32 \<le> w \<or> w + 32 \<le> y" if "y \<in> set ?xs" "w \<in> set ?xs" for y w
  proof (cases "y = w")
    case True
    then show ?thesis by simp
  next
    case False
    from el [OF that(1)] obtain sy where sy: "free_at bl y sy" "32 \<le> sy" by blast
    from el [OF that(2)] obtain sw where sw: "free_at bl w sw" "32 \<le> sw" by blast
    from free_at_apart [OF R sy(1) sw(1) False] sy(2) sw(2) show ?thesis by auto
  qed
  have ch: "chain (payload_next s) (seg_list s ! c) (map of_nat ps @ ?X # map of_nat ns)"
    using B sp by (simp add: bucket_rel_def seg_chain_chain)
  have nxX: "payload_next s ?X = (if ns = [] then 0 else of_nat (hd ns))"
    using chain_next_at [OF ch] by (simp add: hd_map)
  have hd: "seg_list s ! c = of_nat (hd ?xs)"
    using chain_head [OF ch] sp by (cases ps) simp_all
  have eq0: "remove_free s ?X =
     (if ?X = seg_list s ! c
      then Some (s\<lparr>seg_list := (seg_list s)[c := payload_next s ?X]\<rparr>)
      else if payload_next s ?X = 0 then Some (set_payload_next s (payload_prev s ?X) 0)
      else Some (set_payload_prev (set_payload_next s (payload_prev s ?X) (payload_next s ?X))
                   (payload_next s ?X) (payload_prev s ?X)))"
    by (simp only: remove_free_big_eq [OF nm] cl)
  show ?thesis
  proof (cases ps)
    case Nil
    define s' where "s' = s\<lparr>seg_list := (seg_list s)[c := payload_next s ?X]\<rparr>"
    have hx: "seg_list s ! c = ?X" using hd sp Nil by simp
    have rf: "remove_free s ?X = Some s'" using eq0 hx by (simp add: s'_def)
    have g: "heap_start s' = heap_start s" "mem_heap s' = mem_heap s" "mem_brk s' = mem_brk s"
      "mem_max_addr s' = mem_max_addr s" "mem s' = mem s" "mini_list s' = mini_list s"
      by (simp_all add: s'_def)
    have t: "touch s s' {}" by (rule touch_mem_eq) (simp add: g)
    have R': "blocks_rel s' bl" by (rule blocks_rel_mem_eq [OF R]) (simp_all add: g)
    have same: "payload_next s' = payload_next s" "payload_prev s' = payload_prev s"
      by (auto simp: payload_next_def payload_prev_def g fun_eq_iff)
    have bk: "bucket_rel s' bl i ((fls[c := ps @ ns]) ! i)" if i: "i < LENGTH_seg" for i
    proof (cases "i = c")
      case True
      have sl: "seg_list s' ! c = payload_next s ?X" using c len by (simp add: s'_def)
      have "chain (payload_next s) (payload_next s ?X) (map of_nat ns)"
        using ch Nil by simp
      then have c1: "seg_chain s' (seg_list s' ! c) (map of_nat ns)"
        by (simp add: seg_chain_chain same sl)
      have "prevs_ok s ns" using B sp Nil prevs_ok_tl [of s ?x ns] by (simp add: bucket_rel_def)
      then have c2: "prevs_ok s' ns" using prevs_ok_frame [of ns s' s] by (simp add: same)
      have c4: "\<forall>y\<in>set ns. \<exists>sz. free_at bl y sz \<and> sz \<noteq> 16 \<and> find_class (of_nat sz) = c"
        using B sp by (auto simp: bucket_rel_def)
      show ?thesis using True c1 c2 c4 nin Nil c len unfolding bucket_rel_def by simp
    next
      case False
      have "bucket_rel s' bl i (fls ! i)"
      proof (rule bucket_rel_frame [OF _ R _ t])
        show "bucket_rel s bl i (fls ! i)" using LR i by (simp add: lists_rel_def)
        show "seg_list s' ! i = seg_list s ! i" using False by (simp add: s'_def)
      qed simp
      then show ?thesis using False by simp
    qed
    have "minis_rel s' bl ml" by (rule minis_rel_frame [OF M R g(6) t]) simp
    then have "lists_rel s' bl (fls[c := ps @ ns]) ml"
      using bk len by (simp add: lists_rel_def s'_def)
    then show ?thesis using rf R' g rm touch_mono [OF t, of "- payload_bytes bl"] by auto
  next
    case (Cons p0 ps0)
    then have pne: "ps \<noteq> []" by simp
    let ?p = "last ps"
    let ?P = "of_nat (last ps) :: addr"
    have pin: "?p \<in> set ?xs" "?p \<in> set ps" using pne sp by auto
    have px: "?p \<noteq> ?x" using pin(2) nin by auto
    have hps: "hd ?xs \<in> set ps" using sp pne by (cases ps) auto
    have hne: "seg_list s ! c \<noteq> ?X"
    proof -
      have "hd ?xs \<noteq> ?x" using hps nin by auto
      moreover have "hd ?xs \<in> set ?xs" "?x \<in> set ?xs" using sp hps by auto
      ultimately show ?thesis using hd inj by simp
    qed
    have pvX: "payload_prev s ?X = ?P"
      using prevs_ok_at [of s ps ?x ns] B sp pne by (simp add: bucket_rel_def)
    from el [OF pin(1)] have p24: "?p + 24 \<le> 2 ^ 64" by blast
    show ?thesis
    proof (cases ns)
      case Nil
      define s' where "s' = set_payload_next s ?P 0"
      have rf: "remove_free s ?X = Some s'" using eq0 hne nxX Nil pvX by (simp add: s'_def)
      have m': "mem s' = store64 (mem s) (of_nat (?p + 16)) 0"
        by (simp add: s'_def set_payload_next_def)
      have g: "heap_start s' = heap_start s" "mem_heap s' = mem_heap s" "mem_brk s' = mem_brk s"
        "mem_max_addr s' = mem_max_addr s" "seg_list s' = seg_list s" "mini_list s' = mini_list s"
        by (simp_all add: s'_def set_payload_next_def)
      have t: "touch s s' {?p + 16..<?p + 16 + 8}"
        by (rule touch_store64 [OF _ m']) (use p24 in simp)
      have nxP: "payload_next s' ?P = payload_next s ?X"
        using nxX Nil by (simp add: payload_next_def m' load64_store64_same)
      have "blocks_rel s' bl \<and> lists_rel s' bl (fls[c := ps @ ns]) ml \<and>
            touch s s' (- payload_bytes bl)"
      proof (rule remove_big_core [OF R LR c sp pne t g(1-4) g(5,6) pin(1) pin(1) _ nxP])
        show "{?p + 16..<?p + 16 + 8} \<subseteq> {?p + 16..<?p + 24} \<union> {?p + 8..<?p + 16}" by auto
        show "ns \<noteq> [] \<Longrightarrow> payload_prev s' (of_nat (hd ns)) = ?P" using Nil by simp
        fix y assume "y \<in> set (butlast ps) \<union> set ns"
        then have y: "y \<in> set (butlast ps)" using Nil by simp
        then have "y \<noteq> ?p" using distinct_butlast_last [OF nin(4)] by simp
        moreover have "y \<in> set ?xs" using y sp by (auto dest: in_set_butlastD)
        ultimately show "{?p + 16..<?p + 16 + 8} \<inter> {y + 16..<y + 24} = {}"
          using ap2 [OF _ pin(1), of y] by auto
      next
        fix y assume "y \<in> set (tl ps) \<union> set (tl ns)"
        then have "y \<in> set ?xs" using sp by (auto dest: in_set_tl)
        then show "{?p + 16..<?p + 16 + 8} \<inter> {y + 8..<y + 16} = {}"
          using ap2 [OF _ pin(1), of y] by auto
      qed
      then show ?thesis using rf g rm by auto
    next
      case (Cons n ns')
      let ?N = "of_nat n :: addr"
      have nin': "n \<in> set ?xs" "n \<in> set ns" using sp Cons by auto
      have N0: "?N \<noteq> 0" using nz [OF nin'(1)] .
      have np: "n \<noteq> ?p" using nin(3) nin'(2) pin(2) by auto
      from el [OF nin'(1)] have n24: "n + 24 \<le> 2 ^ 64" by blast
      have nxN: "payload_next s ?X = ?N" using nxX Cons by simp
      define s' where "s' = set_payload_prev (set_payload_next s ?P ?N) ?N ?P"
      have rf: "remove_free s ?X = Some s'" using eq0 hne nxN N0 pvX by (simp add: s'_def)
      have m': "mem s' = store64 (store64 (mem s) (of_nat (?p + 16)) ?N) (of_nat (n + 8)) ?P"
        by (simp add: s'_def set_payload_next_def set_payload_prev_def)
      have g: "heap_start s' = heap_start s" "mem_heap s' = mem_heap s" "mem_brk s' = mem_brk s"
        "mem_max_addr s' = mem_max_addr s" "seg_list s' = seg_list s" "mini_list s' = mini_list s"
        by (simp_all add: s'_def set_payload_next_def set_payload_prev_def)
      let ?A = "{?p + 16..<?p + 16 + 8} \<union> {n + 8..<n + 8 + 8}"
      have t: "touch s s' ?A"
        by (rule touch_store64_2 [OF _ _ m']) (use p24 n24 in simp_all)
      have apn: "n + 32 \<le> ?p \<or> ?p + 32 \<le> n" using ap2 [OF nin'(1) pin(1)] np by simp
      have nxP: "payload_next s' ?P = payload_next s ?X"
      proof -
        have "load64 (mem s') (of_nat (?p + 16)) = ?N" unfolding m'
          by (subst load64_store64_far) (use p24 n24 apn in \<open>auto simp: load64_store64_same\<close>)
        then show ?thesis using nxN by (simp add: payload_next_def)
      qed
      have pvN: "payload_prev s' ?N = ?P"
      proof -
        have "load64 (mem s') (of_nat (n + 8)) = ?P" unfolding m'
          by (rule load64_store64_same)
        then show ?thesis by (simp add: payload_prev_def)
      qed
      have "blocks_rel s' bl \<and> lists_rel s' bl (fls[c := ps @ ns]) ml \<and>
            touch s s' (- payload_bytes bl)"
      proof (rule remove_big_core [OF R LR c sp pne t g(1-4) g(5,6) pin(1) nin'(1) _ nxP])
        show "?A \<subseteq> {?p + 16..<?p + 24} \<union> {n + 8..<n + 16}" by auto
        show "ns \<noteq> [] \<Longrightarrow> payload_prev s' (of_nat (hd ns)) = ?P" using Cons pvN by simp
        fix y assume y: "y \<in> set (butlast ps) \<union> set ns"
        then have yp: "y \<noteq> ?p" using distinct_butlast_last [OF nin(4)] nin(3) pin(2) by auto
        have "y \<in> set ?xs" using y sp by (auto dest: in_set_butlastD)
        then show "?A \<inter> {y + 16..<y + 24} = {}"
          using ap2 [OF _ pin(1), of y] ap2 [OF _ nin'(1), of y] yp by auto
      next
        fix y assume y: "y \<in> set (tl ps) \<union> set (tl ns)"
        have yn: "y \<noteq> n"
        proof
          assume "y = n"
          with y have "n \<in> set (tl ps) \<or> n \<in> set ns'" using Cons by simp
          then show False using nin(3,5) nin'(2) Cons by (auto dest: in_set_tl)
        qed
        have "y \<in> set ?xs" using y sp by (auto dest: in_set_tl)
        then show "?A \<inter> {y + 8..<y + 16} = {}"
          using ap2 [OF _ pin(1), of y] ap2 [OF _ nin'(1), of y] yn by auto
      qed
      then show ?thesis using rf g rm by auto
    qed
  qed
qed

lemma remove_free_mini_ok:
  assumes R: "blocks_rel s bl" and LR: "lists_rel s bl fls ml"
    and b: "b \<in> set bl" "\<not> balloc b" "bsize b = 16"
    and inl: "baddr b \<in> set ml"
  shows "\<exists>s'. remove_free s (of_nat (baddr b)) = Some s' \<and> blocks_rel s' bl \<and>
         lists_rel s' bl fls (remove1 (baddr b) ml) \<and>
         heap_start s' = heap_start s \<and> mem_heap s' = mem_heap s \<and> mem_brk s' = mem_brk s \<and>
         mem_max_addr s' = mem_max_addr s \<and> touch s s' (- payload_bytes bl)"
proof -
  let ?x = "baddr b"
  let ?X = "of_nat (baddr b) :: addr"
  have len: "length fls = LENGTH_seg" "length (seg_list s) = LENGTH_seg"
    using LR by (simp_all add: lists_rel_def)
  have M: "minis_rel s bl ml" using LR by (simp add: lists_rel_def)
  have mini: "is_mini_block s ?X" using blocks_rel_read(7) [OF R b(1)] b(3) by simp
  have dist: "distinct ml" using M by (simp add: minis_rel_def)
  from inl obtain ps ns where sp: "ml = ps @ ?x # ns" by (auto dest: split_list)
  have nin: "?x \<notin> set ps" "?x \<notin> set ns" "set ps \<inter> set ns = {}" "distinct ps" "distinct ns"
    using dist sp by auto
  have rm: "remove1 ?x ml = ps @ ns" using sp nin by (simp add: remove1_append)
  note el = mini_elem [OF M R]
  have nz: "(of_nat y :: addr) \<noteq> 0" if "y \<in> set ml" for y
    using el [OF that] by (auto simp: of_nat_eq_0_64)
  have inj: "((of_nat y :: addr) = of_nat y') = (y = y')" if "y \<in> set ml" "y' \<in> set ml" for y y'
    using el [OF that(1)] el [OF that(2)] by (auto simp: of_nat_inj64)
  have ch: "chain (mini_next s) (mini_list s) (map of_nat ps @ ?X # map of_nat ns)"
    using M sp by (simp add: minis_rel_def mini_chain_chain)
  have nxX: "mini_next s ?X = (if ns = [] then 0 else of_nat (hd ns))"
    using chain_next_at [OF ch] by (simp add: hd_map)
  have bkf: "bucket_rel s' bl i (fls ! i)"
    if i: "i < LENGTH_seg" and sl: "seg_list s' = seg_list s" and t: "touch s s' A"
      and fr: "\<And>y sz. free_at bl y sz \<Longrightarrow> sz \<noteq> 16 \<Longrightarrow> A \<inter> {y + 8..<y + sz} = {}" for i s' A
  proof (rule bucket_rel_frame [OF _ R _ t])
    show Bi: "bucket_rel s bl i (fls ! i)" using LR i by (simp add: lists_rel_def)
    show "seg_list s' ! i = seg_list s ! i" by (simp add: sl)
    fix y sz assume y: "y \<in> set (fls ! i)" and f: "free_at bl y sz"
    from bucket_elem [OF Bi R y] obtain sz' where "free_at bl y sz'" "sz' \<noteq> 16" by blast
    then have "sz \<noteq> 16" using free_at_unique [OF R f, of sz'] by auto
    then show "free_at bl y sz \<and> A \<inter> {y + 8..<y + sz} = {}" using fr [OF f] f by simp
  qed
  show ?thesis
  proof (cases ps)
    case Nil
    define s' where "s' = s\<lparr>mini_list := mini_next s ?X\<rparr>"
    have hx: "mini_list s = ?X" using ch Nil by simp
    have "ns \<noteq> [] \<Longrightarrow> (of_nat (hd ns) :: addr) \<noteq> 0" using nz [of "hd ns"] sp by simp
    then have rf: "remove_free s ?X = Some s'"
      using remove_free_mini_eq [OF mini] hx nxX by (auto simp: s'_def)
    have g: "heap_start s' = heap_start s" "mem_heap s' = mem_heap s" "mem_brk s' = mem_brk s"
      "mem_max_addr s' = mem_max_addr s" "mem s' = mem s" "seg_list s' = seg_list s"
      by (simp_all add: s'_def)
    have t: "touch s s' {}" by (rule touch_mem_eq) (simp add: g)
    have R': "blocks_rel s' bl" by (rule blocks_rel_mem_eq [OF R]) (simp_all add: g)
    have same: "mini_next s' = mini_next s" by (auto simp: mini_next_def g fun_eq_iff)
    have ml': "mini_list s' = mini_next s ?X" by (simp add: s'_def)
    have "chain (mini_next s) (mini_next s ?X) (map of_nat ns)" using ch Nil by simp
    then have "mini_chain s' (mini_list s') (map of_nat ns)"
      by (simp add: mini_chain_chain same ml')
    then have "minis_rel s' bl (ps @ ns)" using M sp nin Nil by (simp add: minis_rel_def)
    moreover have "bucket_rel s' bl i (fls ! i)" if "i < LENGTH_seg" for i
      by (rule bkf [OF that g(6) t]) simp
    ultimately have "lists_rel s' bl fls (ps @ ns)" using len by (simp add: lists_rel_def g)
    then show ?thesis using rf R' g rm touch_mono [OF t, of "- payload_bytes bl"] by auto
  next
    case (Cons p0 ps0)
    then have pne: "ps \<noteq> []" by simp
    let ?p = "last ps"
    let ?P = "of_nat (last ps) :: addr"
    have pin: "?p \<in> set ml" "?p \<in> set ps" using pne sp by auto
    have px: "?p \<noteq> ?x" using pin(2) nin by auto
    from el [OF pin(1)] have pf: "free_at bl ?p 16" and p24: "?p + 24 \<le> 2 ^ 64" by auto
    have h0: "mini_list s = of_nat p0" using ch Cons by simp
    have "p0 \<noteq> ?x" using nin Cons by auto
    then have hne: "?X \<noteq> mini_list s" using h0 inj [of ?x p0] sp Cons by auto
    have n0: "mini_next s (mini_list s) \<noteq> 0"
    proof -
      obtain r rs where r: "map of_nat ps0 @ ?X # map of_nat ns = r # rs"
        by (cases "map of_nat ps0 @ ?X # map of_nat ns") auto
      with ch Cons have "chain (mini_next s) (mini_next s (of_nat p0)) (r # rs)" by simp
      then show ?thesis using h0 by auto
    qed
    have Xn: "?X \<notin> set (map of_nat ps)"
    proof
      assume "?X \<in> set (map of_nat ps)"
      then obtain y where "y \<in> set ps" "(of_nat y :: addr) = ?X" by auto
      then show False using inj [of y ?x] sp nin by auto
    qed
    have mp: "mini_pred s (mini_list s) ?X = Some ?P"
      using mini_pred_chain [OF ch _ Xn] pne by (simp add: last_map)
    define s' where "s' = set_mini_next s ?P (mini_next s ?X)"
    have rf: "remove_free s ?X = Some s'"
      using remove_free_mini_eq [OF mini] hne n0 mp by (simp add: s'_def)
    have m': "mem s' = store64 (mem s) (of_nat (?p + 8)) (mini_next s ?X)"
      by (simp add: s'_def set_mini_next_def)
    have g: "heap_start s' = heap_start s" "mem_heap s' = mem_heap s" "mem_brk s' = mem_brk s"
      "mem_max_addr s' = mem_max_addr s" "seg_list s' = seg_list s" "mini_list s' = mini_list s"
      by (simp_all add: s'_def set_mini_next_def)
    let ?A = "{?p + 8..<?p + 8 + 8}"
    have t: "touch s s' ?A" by (rule touch_store64 [OF _ m']) (use p24 in simp)
    have A: "?A \<subseteq> {?p + 8..<?p + min 16 24} \<union> {?p + 8..<?p + min 16 24}" by auto
    note lf = link_frame [OF R t g(1-4) pf pf A]
    have nxP: "mini_next s' ?P = mini_next s ?X"
      by (simp add: mini_next_def m' load64_store64_same)
    have "chain (mini_next s') (mini_list s) (map of_nat ps @ map of_nat ns)"
    proof (rule chain_remove [OF ch])
      show "map of_nat ps \<noteq> []" using pne by simp
      show "mini_next s' (last (map of_nat ps)) = mini_next s ?X"
        using nxP pne by (simp add: last_map)
      fix Y :: addr assume "Y \<in> set (butlast (map of_nat ps)) \<union> set (map of_nat ns)"
      then obtain y where y: "Y = of_nat y" "y \<in> set (butlast ps) \<union> set ns"
        by (auto simp: map_butlast [symmetric])
      then have yl: "y \<in> set ml" using sp by (auto dest: in_set_butlastD)
      have "y \<noteq> ?p" using y(2) distinct_butlast_last [OF nin(4)] nin(3) pin(2) by auto
      from lf(2) [OF _ this this, of 16] el [OF yl]
      have "?A \<inter> {y + 8..<y + 16} = {}" by simp
      from link_touch(2) [OF t _ this] el [OF yl] y(1)
      show "mini_next s' Y = mini_next s Y" by simp
    qed
    then have "mini_chain s' (mini_list s') (map of_nat (ps @ ns))"
      by (simp add: mini_chain_chain g)
    then have "minis_rel s' bl (ps @ ns)" using M sp nin by (auto simp: minis_rel_def)
    moreover have "bucket_rel s' bl i (fls ! i)" if i: "i < LENGTH_seg" for i
    proof (rule bkf [OF i g(5) t])
      fix y sz assume f: "free_at bl y sz" and "sz \<noteq> 16"
      then have "y \<noteq> ?p" using free_at_unique [OF R pf, of sz] by auto
      from lf(2) [OF f this this] show "?A \<inter> {y + 8..<y + sz} = {}" .
    qed
    ultimately have "lists_rel s' bl fls (ps @ ns)" using len by (simp add: lists_rel_def g)
    then show ?thesis using rf lf(1) lf(3) g rm by auto
  qed
qed

lemma remove_free_ok:
  assumes R: "blocks_rel s bl" and L: "lists_ok s bl S"
    and b: "b \<in> set bl" "\<not> balloc b" and inS: "baddr b \<in> S"
  shows "\<exists>s'. remove_free s (of_nat (baddr b)) = Some s' \<and> blocks_rel s' bl \<and>
         lists_ok s' bl (S - {baddr b}) \<and>
         heap_start s' = heap_start s \<and> mem_heap s' = mem_heap s \<and> mem_brk s' = mem_brk s \<and>
         mem_max_addr s' = mem_max_addr s \<and> touch s s' (- payload_bytes bl)"
proof -
  from L obtain fls ml where LR: "lists_rel s bl fls ml" and S: "listed_set fls ml = S"
    by (auto simp: lists_ok_def)
  have len: "length fls = LENGTH_seg" using LR by (simp add: lists_rel_def)
  have fa: "free_at bl (baddr b) (bsize b)" using b by (auto simp: free_at_def)
  have M: "minis_rel s bl ml" using LR by (simp add: lists_rel_def)
  have B: "bucket_rel s bl i (fls ! i)" if "i < LENGTH_seg" for i
    using LR that by (simp add: lists_rel_def)
  have inb: "bsize b \<noteq> 16 \<and> i = find_class (of_nat (bsize b))"
    if "i < LENGTH_seg" "baddr b \<in> set (fls ! i)" for i
  proof -
    from bucket_elem [OF B [OF that(1)] R that(2)] obtain sz where
      "free_at bl (baddr b) sz" "sz \<noteq> 16" "find_class (of_nat sz) = i" by blast
    then show ?thesis using free_at_unique [OF R fa, of sz] by auto
  qed
  have inm: "bsize b = 16" if "baddr b \<in> set ml"
    using mini_elem [OF M R that] free_at_unique [OF R fa, of 16] by auto
  have dis: "baddr b \<in> set ml \<or> (\<exists>i<LENGTH_seg. baddr b \<in> set (fls ! i))"
    using inS S len by (auto simp: listed_set_def)
  show ?thesis
  proof (cases "bsize b = 16")
    case True
    have x: "baddr b \<in> set ml" using dis inb True by blast
    have no: "\<forall>i<length fls. baddr b \<notin> set (fls ! i)" using inb True len by auto
    have "distinct ml" using M by (simp add: minis_rel_def)
    then have "set (remove1 (baddr b) ml) = set ml - {baddr b}" by simp
    from listed_set_remove_mini [OF this no]
    have ls: "listed_set fls (remove1 (baddr b) ml) = S - {baddr b}" using S by simp
    from remove_free_mini_ok [OF R LR b True x] obtain s' where
      s': "remove_free s (of_nat (baddr b)) = Some s'" "blocks_rel s' bl"
        "lists_rel s' bl fls (remove1 (baddr b) ml)"
        "heap_start s' = heap_start s" "mem_heap s' = mem_heap s" "mem_brk s' = mem_brk s"
        "mem_max_addr s' = mem_max_addr s" "touch s s' (- payload_bytes bl)"
      by blast
    have "lists_ok s' bl (S - {baddr b})" unfolding lists_ok_def using s'(3) ls by blast
    with s' show ?thesis by simp
  next
    case False
    let ?c = "find_class (of_nat (bsize b))"
    have c: "?c < length fls" using len by (simp add: find_class_lt)
    have x: "baddr b \<in> set (fls ! ?c)" using dis inb inm False by blast
    have nom: "baddr b \<notin> set ml" using inm False by blast
    have no: "\<forall>i<length fls. i \<noteq> ?c \<longrightarrow> baddr b \<notin> set (fls ! i)" using inb len by auto
    have "distinct (fls ! ?c)" using B [of ?c] by (simp add: bucket_rel_def find_class_lt)
    then have "set (remove1 (baddr b) (fls ! ?c)) = set (fls ! ?c) - {baddr b}" by simp
    from listed_set_remove [OF c this nom no]
    have ls: "listed_set (fls[?c := remove1 (baddr b) (fls ! ?c)]) ml = S - {baddr b}"
      using S by simp
    from remove_free_big_ok [OF R LR b False x] obtain s' where
      s': "remove_free s (of_nat (baddr b)) = Some s'" "blocks_rel s' bl"
        "lists_rel s' bl (fls[?c := remove1 (baddr b) (fls ! ?c)]) ml"
        "heap_start s' = heap_start s" "mem_heap s' = mem_heap s" "mem_brk s' = mem_brk s"
        "mem_max_addr s' = mem_max_addr s" "touch s s' (- payload_bytes bl)"
      by blast
    have "lists_ok s' bl (S - {baddr b})" unfolding lists_ok_def using s'(3) ls by blast
    with s' show ?thesis by simp
  qed
qed

section \<open>Rewriting blocks\<close>

lemma blocks_rel_update2:
  assumes R: "blocks_rel s bl"
    and g: "heap_start s' = heap_start s" "mem_heap s' = mem_heap s" "mem_brk s' = mem_brk s"
      "mem_max_addr s' = mem_max_addr s"
    and lay: "layout (unat (heap_start s)) bl' (unat (mem_brk s) - 8)"
    and t: "touch s s' A"
    and blk: "\<And>b. b \<in> set bl' \<Longrightarrow>
        (b \<in> set bl \<and> A \<inter> {baddr b..<baddr b + 8} = {} \<and>
         (\<not> balloc b \<and> bsize b \<noteq> 16 \<longrightarrow> A \<inter> {baddr b + bsize b - 8..<baddr b + bsize b} = {})) \<or>
        (header s' (of_nat (baddr b)) = hdr_of b \<and>
         (\<not> balloc b \<and> bsize b \<noteq> 16 \<longrightarrow>
           load64 (mem s') (of_nat (baddr b + bsize b - 8)) = hdr_of b))"
  shows "blocks_rel s' bl'"
proof -
  have brk: "8 \<le> unat (mem_brk s)" "unat (mem_brk s) < 2 ^ 64"
    using R unat_lt64 [of "mem_brk s"] by (auto simp: blocks_rel_def)
  have "header s' (of_nat (baddr b)) = hdr_of b \<and>
        (\<not> balloc b \<and> bsize b \<noteq> 16 \<longrightarrow>
           load64 (mem s') (of_nat (baddr b + bsize b - 8)) = hdr_of b)"
    if b: "b \<in> set bl'" for b
  proof (cases "header s' (of_nat (baddr b)) = hdr_of b \<and>
         (\<not> balloc b \<and> bsize b \<noteq> 16 \<longrightarrow>
           load64 (mem s') (of_nat (baddr b + bsize b - 8)) = hdr_of b)")
    case True
    then show ?thesis .
  next
    case False
    with blk [OF b] have o: "b \<in> set bl" "A \<inter> {baddr b..<baddr b + 8} = {}"
      "\<not> balloc b \<and> bsize b \<noteq> 16 \<longrightarrow> A \<inter> {baddr b + bsize b - 8..<baddr b + bsize b} = {}"
      by blast+
    have bd: "baddr b + bsize b \<le> unat (mem_brk s) - 8" using layout_bounds [OF lay b] by simp
    have sz: "\<not> balloc b \<Longrightarrow> 16 \<le> bsize b" using layout_real_size [OF lay b] by simp
    have h: "header s' (of_nat (baddr b)) = header s (of_nat (baddr b))"
      unfolding header_def using o bd brk by (intro load64_touch [OF t]) auto
    have f: "load64 (mem s') (of_nat (baddr b + bsize b - 8)) =
             load64 (mem s) (of_nat (baddr b + bsize b - 8))"
      if nb: "\<not> balloc b" "bsize b \<noteq> 16"
    proof (rule load64_touch [OF t])
      show "baddr b + bsize b - 8 + 8 \<le> 2 ^ 64" using bd brk sz [OF nb(1)] by simp
      have "baddr b + bsize b - 8 + 8 = baddr b + bsize b" using sz [OF nb(1)] by simp
      then show "A \<inter> {baddr b + bsize b - 8..<baddr b + bsize b - 8 + 8} = {}"
        using o nb by simp
    qed
    show ?thesis using R o(1) h f by (auto simp: blocks_rel_def)
  qed
  then show ?thesis using R g lay unfolding blocks_rel_def by simp
qed

lemma layout_split3:
  "layout h (pre @ olds @ post) E \<Longrightarrow> post \<noteq> [] \<Longrightarrow>
   \<exists>a e. seg h pre a \<and> seg a olds e \<and> layout e post E"
  by (auto simp: layout_append)

lemma layout_join3:
  "seg h pre a \<Longrightarrow> seg a news e \<Longrightarrow> layout e post E \<Longrightarrow> post \<noteq> [] \<Longrightarrow>
   layout h (pre @ news @ post) E"
  by (auto simp: layout_append)

lemma seg_size: "seg a xs e \<Longrightarrow> xs \<noteq> [] \<Longrightarrow> a + 16 \<le> e \<and> 16 dvd (e - a)"
proof (induction xs arbitrary: a)
  case Nil
  then show ?case by simp
next
  case (Cons x xs)
  note pr = Cons.prems and IH = Cons.IH
  show ?case
  proof (cases xs)
    case Nil
    with pr show ?thesis by auto
  next
    case (Cons y ys)
    with pr have s: "seg (a + bsize x) xs e" "16 \<le> bsize x" "16 dvd bsize x" "xs \<noteq> []" by auto
    from IH [OF s(1,4)] have i: "a + bsize x + 16 \<le> e" "16 dvd (e - (a + bsize x))" by auto
    have "e - a = bsize x + (e - (a + bsize x))" using i(1) by simp
    then have "16 dvd (e - a)" using s(3) i(2) by (metis dvd_add)
    then show ?thesis using i(1) by simp
  qed
qed

lemma layout_replace:
  assumes "layout a (pre @ c # post) e" "baddr c' = baddr c" "bsize c' = bsize c" "balloc c'"
  shows "layout a (pre @ c' # post) e"
proof (cases post)
  case Nil
  with assms show ?thesis by (simp add: layout_last)
next
  case (Cons p ps)
  then have "post \<noteq> []" by simp
  with assms show ?thesis by (auto simp: layout_append layout_cons_real)
qed

lemma segment_update:
  assumes R: "blocks_rel s bl" and L: "lists_ok s bl S"
    and bl: "bl = pre @ olds @ post" and post: "post \<noteq> []"
    and lay: "seg (unat (heap_start s)) pre a" "seg a olds e"
      "layout e post (unat (mem_brk s) - 8)"
    and news: "seg a news e"
    and g: "heap_start s' = heap_start s" "mem_heap s' = mem_heap s" "mem_brk s' = mem_brk s"
      "mem_max_addr s' = mem_max_addr s" "seg_list s' = seg_list s" "mini_list s' = mini_list s"
    and t: "touch s s' A" and A: "A \<subseteq> {a..<e}"
    and new: "\<And>b. b \<in> set news \<Longrightarrow> header s' (of_nat (baddr b)) = hdr_of b \<and>
        (\<not> balloc b \<and> bsize b \<noteq> 16 \<longrightarrow>
           load64 (mem s') (of_nat (baddr b + bsize b - 8)) = hdr_of b)"
    and S: "\<And>x. x \<in> S \<Longrightarrow> x \<notin> baddr ` set olds"
  shows "blocks_rel s' (pre @ news @ post) \<and> lists_ok s' (pre @ news @ post) S"
proof -
  let ?bl' = "pre @ news @ post"
  have lay': "layout (unat (heap_start s)) ?bl' (unat (mem_brk s) - 8)"
    by (rule layout_join3 [OF lay(1) news lay(3) post])
  have Ab: "a \<le> x \<and> x < e" if "x \<in> A" for x using A that by auto
  have pre_b: "baddr c + bsize c \<le> a \<and> 16 \<le> bsize c" if "c \<in> set pre" for c
    using seg_bounds [OF lay(1) that] by simp
  have post_b: "e \<le> baddr c \<and> (\<not> balloc c \<longrightarrow> 16 \<le> bsize c)" if "c \<in> set post" for c
    using layout_bounds [OF lay(3) that] layout_real_size [OF lay(3) that] by auto
  have R': "blocks_rel s' ?bl'"
  proof (rule blocks_rel_update2 [OF R g(1-4) lay' t])
    fix b assume "b \<in> set ?bl'"
    then consider "b \<in> set pre" | "b \<in> set news" | "b \<in> set post" by auto
    then show "(b \<in> set bl \<and> A \<inter> {baddr b..<baddr b + 8} = {} \<and>
         (\<not> balloc b \<and> bsize b \<noteq> 16 \<longrightarrow> A \<inter> {baddr b + bsize b - 8..<baddr b + bsize b} = {})) \<or>
        (header s' (of_nat (baddr b)) = hdr_of b \<and>
         (\<not> balloc b \<and> bsize b \<noteq> 16 \<longrightarrow>
           load64 (mem s') (of_nat (baddr b + bsize b - 8)) = hdr_of b))"
    proof cases
      case 1
      from pre_b [OF 1] have "A \<inter> {baddr b..<baddr b + 8} = {}"
        "A \<inter> {baddr b + bsize b - 8..<baddr b + bsize b} = {}" by (auto dest: Ab)
      then show ?thesis using 1 bl by simp
    next
      case 2
      then show ?thesis using new by blast
    next
      case 3
      from post_b [OF 3] have "A \<inter> {baddr b..<baddr b + 8} = {}"
        "\<not> balloc b \<longrightarrow> A \<inter> {baddr b + bsize b - 8..<baddr b + bsize b} = {}"
        by (auto dest: Ab)
      then show ?thesis using 3 bl by simp
    qed
  qed
  have "lists_ok s' ?bl' S"
  proof (rule lists_ok_frame [OF L R g(5,6) t])
    fix x sz assume x: "x \<in> S" and f: "free_at bl x sz"
    from f obtain c where c: "c \<in> set bl" "baddr c = x" "bsize c = sz" "\<not> balloc c"
      by (auto simp: free_at_def)
    from S [OF x] c have "c \<notin> set olds" by auto
    with c bl consider "c \<in> set pre" | "c \<in> set post" by auto
    then show "free_at ?bl' x sz \<and> A \<inter> {x + 8..<x + sz} = {}"
    proof cases
      case 1
      from pre_b [OF 1] c have "A \<inter> {x + 8..<x + sz} = {}" by (auto dest: Ab)
      then show ?thesis using 1 c by (auto simp: free_at_def)
    next
      case 2
      from post_b [OF 2] c have "A \<inter> {x + 8..<x + sz} = {}" by (auto dest: Ab)
      then show ?thesis using 2 c by (auto simp: free_at_def)
    qed
  qed
  with R' show ?thesis by simp
qed

lemma header_rewrite:
  assumes R: "blocks_rel s bl" and L: "lists_ok s bl S"
    and bl: "bl = pre @ c # post"
    and c': "baddr c' = baddr c" "bsize c' = bsize c" "balloc c'"
    and notS: "baddr c \<notin> S"
    and g: "heap_start s' = heap_start s" "mem_heap s' = mem_heap s" "mem_brk s' = mem_brk s"
      "mem_max_addr s' = mem_max_addr s" "seg_list s' = seg_list s" "mini_list s' = mini_list s"
    and m: "mem s' = store64 (mem s) (of_nat (baddr c)) (hdr_of c')"
  shows "blocks_rel s' (pre @ c' # post) \<and> lists_ok s' (pre @ c' # post) S \<and>
         touch s s' {baddr c..<baddr c + 8}"
proof -
  let ?bl' = "pre @ c' # post"
  let ?A = "{baddr c..<baddr c + 8}"
  note l = blocks_rel_layout [OF R]
  have cin: "c \<in> set bl" using bl by simp
  note bd = blocks_rel_bounds [OF R cin]
  have c8: "baddr c + 8 \<le> 2 ^ 64" using bd by simp
  have t: "touch s s' ?A" by (rule touch_store64 [OF c8 m])
  have lay': "layout (unat (heap_start s)) ?bl' (unat (mem_brk s) - 8)"
    using layout_replace [OF _ c'] l bl by simp
  have pre_b: "baddr d + bsize d \<le> baddr c \<and> 16 \<le> bsize d" if "d \<in> set pre" for d
    using layout_before [of _ pre c post _ d] l bl that by simp
  have post_b: "baddr c + bsize c \<le> baddr d \<and> 16 \<le> bsize c" if "d \<in> set post" for d
    using layout_after [of _ pre c post _ d] l bl that by simp
  have R': "blocks_rel s' ?bl'"
  proof (rule blocks_rel_update2 [OF R g(1-4) lay' t])
    fix b assume "b \<in> set ?bl'"
    then consider "b \<in> set pre" | "b = c'" | "b \<in> set post" by auto
    then show "(b \<in> set bl \<and> ?A \<inter> {baddr b..<baddr b + 8} = {} \<and>
         (\<not> balloc b \<and> bsize b \<noteq> 16 \<longrightarrow> ?A \<inter> {baddr b + bsize b - 8..<baddr b + bsize b} = {})) \<or>
        (header s' (of_nat (baddr b)) = hdr_of b \<and>
         (\<not> balloc b \<and> bsize b \<noteq> 16 \<longrightarrow>
           load64 (mem s') (of_nat (baddr b + bsize b - 8)) = hdr_of b))"
    proof cases
      case 1
      from pre_b [OF 1] have "?A \<inter> {baddr b..<baddr b + 8} = {}"
        "?A \<inter> {baddr b + bsize b - 8..<baddr b + bsize b} = {}" by auto
      then show ?thesis using 1 bl by simp
    next
      case 2
      then show ?thesis using c' by (simp add: header_def m load64_store64_same)
    next
      case 3
      have "\<not> balloc b \<Longrightarrow> 16 \<le> bsize b"
        using layout_real_size [OF l, of b] 3 bl by simp
      with post_b [OF 3] have "?A \<inter> {baddr b..<baddr b + 8} = {}"
        "\<not> balloc b \<longrightarrow> ?A \<inter> {baddr b + bsize b - 8..<baddr b + bsize b} = {}" by auto
      then show ?thesis using 3 bl by simp
    qed
  qed
  have "lists_ok s' ?bl' S"
  proof (rule lists_ok_frame [OF L R g(5,6) t])
    fix x sz assume x: "x \<in> S" and f: "free_at bl x sz"
    from f obtain d where d: "d \<in> set bl" "baddr d = x" "bsize d = sz" "\<not> balloc d"
      by (auto simp: free_at_def)
    from x notS d have "d \<noteq> c" by auto
    with d bl consider "d \<in> set pre" | "d \<in> set post" by auto
    then show "free_at ?bl' x sz \<and> ?A \<inter> {x + 8..<x + sz} = {}"
    proof cases
      case 1
      from pre_b [OF 1] d have "?A \<inter> {x + 8..<x + sz} = {}" by auto
      then show ?thesis using 1 d by (auto simp: free_at_def)
    next
      case 2
      from post_b [OF 2] d have "?A \<inter> {x + 8..<x + sz} = {}" by auto
      then show ?thesis using 2 d by (auto simp: free_at_def)
    qed
  qed
  with R' t show ?thesis by simp
qed

section \<open>What \<^verbatim>\<open>write_pack\<close> stores\<close>

lemma write_pack_hdr_eq:
  "al \<or> sz = 16 \<Longrightarrow>
   write_pack s X sz al pa pm = s\<lparr>mem := store64 (mem s) X (pack_all sz al pa pm)\<rparr>"
  by (auto simp: write_pack_def Let_def set_header_def min_block_size_def dsize_def wsize_def)

lemma write_pack_free_eq:
  assumes "16 dvd n" "n \<noteq> 16" "8 \<le> n" "n < 2 ^ 64"
  shows "write_pack s (of_nat a) (of_nat n) False pa pm =
     s\<lparr>mem := store64 (store64 (mem s) (of_nat a) (pack_all (of_nat n) False pa pm))
               (of_nat (a + n - 8)) (pack_all (of_nat n) False pa pm)\<rparr>"
proof -
  have ne: "(of_nat n :: 64 word) \<noteq> 16" using of_nat_inj64 [OF assms(4), of 16] assms(2) by simp
  have sz: "extract_size (pack_all (of_nat n) False pa pm) = of_nat n"
    by (rule pack_fields(1) [OF of_nat_16_low [OF assms(1)]])
  have "(of_nat (a + n - 8) :: 64 word) = of_nat (a + n) - of_nat 8"
    using assms(3) by (intro of_nat_diff) simp
  then have ad: "(of_nat a :: 64 word) + 8 + of_nat n - 16 = of_nat (a + n - 8)" by simp
  show ?thesis
    using ne sz ad
    by (simp add: write_pack_def Let_def set_header_def header_to_footer_def get_size_def
        header_def load64_store64_same min_block_size_def dsize_def wsize_def)
qed

lemma write_free_block:
  fixes pa pm :: bool
  assumes R: "blocks_rel s bl" and L: "lists_ok s bl S"
    and bl: "bl = pre @ olds @ post" and post: "post \<noteq> []" and olds: "olds \<noteq> []"
    and lay: "seg (unat (heap_start s)) pre a" "seg a olds e"
      "layout e post (unat (mem_brk s) - 8)"
    and S: "\<And>x. x \<in> S \<Longrightarrow> x \<notin> baddr ` set olds"
  defines "m \<equiv> \<lparr>baddr = a, bsize = e - a, balloc = False, bpa = pa, bpm = pm\<rparr>"
  defines "s' \<equiv> write_pack s (of_nat a) (of_nat (e - a)) False pa pm"
  shows "blocks_rel s' (pre @ m # post) \<and> lists_ok s' (pre @ m # post) S \<and>
         heap_start s' = heap_start s \<and> mem_heap s' = mem_heap s \<and> mem_brk s' = mem_brk s \<and>
         mem_max_addr s' = mem_max_addr s \<and> seg_list s' = seg_list s \<and>
         mini_list s' = mini_list s \<and> touch s s' ({a..<a + 8} \<union> {e - 8..<e})"
proof -
  let ?n = "e - a"
  let ?h = "pack_all (of_nat ?n) False pa pm"
  from seg_size [OF lay(2) olds] have n: "a + 16 \<le> e" "16 dvd ?n" by auto
  have eb: "e + 8 \<le> unat (mem_brk s)" "unat (mem_brk s) < 2 ^ 64"
    using layout_le [OF lay(3)] R unat_lt64 [of "mem_brk s"] by (auto simp: blocks_rel_def)
  have hm: "hdr_of m = ?h" by (simp add: hdr_of_def m_def)
  have sg: "seg a [m] e" using n by (simp add: m_def)
  have g: "heap_start s' = heap_start s" "mem_heap s' = mem_heap s" "mem_brk s' = mem_brk s"
      "mem_max_addr s' = mem_max_addr s" "seg_list s' = seg_list s" "mini_list s' = mini_list s"
    by (simp_all add: s'_def write_pack_def Let_def set_header_def)
  show ?thesis
  proof (cases "?n = 16")
    case True
    have m': "mem s' = store64 (mem s) (of_nat a) ?h"
      using True by (simp add: s'_def write_pack_hdr_eq)
    have t: "touch s s' {a..<a + 8}" by (rule touch_store64 [OF _ m']) (use eb n in simp)
    have "blocks_rel s' (pre @ [m] @ post) \<and> lists_ok s' (pre @ [m] @ post) S"
    proof (rule segment_update [OF R L bl post lay sg g t _ _ S])
      show "{a..<a + 8} \<subseteq> {a..<e}" using n by auto
      fix b assume "b \<in> set [m]"
      then have "b = m" by simp
      then show "header s' (of_nat (baddr b)) = hdr_of b \<and>
        (\<not> balloc b \<and> bsize b \<noteq> 16 \<longrightarrow>
           load64 (mem s') (of_nat (baddr b + bsize b - 8)) = hdr_of b)"
        using True by (simp add: header_def m' m_def hdr_of_def load64_store64_same)
    qed
    then show ?thesis using g touch_mono [OF t, of "{a..<a + 8} \<union> {e - 8..<e}"] by simp
  next
    case False
    with n have n32: "32 \<le> ?n" by (auto simp: dvd_def)
    have m': "mem s' = store64 (store64 (mem s) (of_nat a) ?h) (of_nat (a + ?n - 8)) ?h"
      unfolding s'_def using write_pack_free_eq [OF n(2) False, of s a pa pm] n32 eb by simp
    have ea: "a + ?n - 8 = e - 8" using n by simp
    have t0: "touch s s' ({a..<a + 8} \<union> {a + ?n - 8..<a + ?n - 8 + 8})"
      by (rule touch_store64_2 [OF _ _ m']) (use eb n32 n in simp_all)
    have e8: "e - 8 + 8 = e" using n by simp
    have t: "touch s s' ({a..<a + 8} \<union> {e - 8..<e})" using t0 by (simp only: ea e8)
    have "blocks_rel s' (pre @ [m] @ post) \<and> lists_ok s' (pre @ [m] @ post) S"
    proof (rule segment_update [OF R L bl post lay sg g t _ _ S])
      show "{a..<a + 8} \<union> {e - 8..<e} \<subseteq> {a..<e}" using n by auto
      fix b assume "b \<in> set [m]"
      then have b: "b = m" by simp
      have "load64 (mem s') (of_nat a) = ?h" unfolding m'
        by (subst load64_store64_far) (use eb n32 n in \<open>auto simp: load64_store64_same\<close>)
      moreover have "load64 (mem s') (of_nat (a + ?n - 8)) = ?h" unfolding m'
        by (rule load64_store64_same)
      ultimately show "header s' (of_nat (baddr b)) = hdr_of b \<and>
        (\<not> balloc b \<and> bsize b \<noteq> 16 \<longrightarrow>
           load64 (mem s') (of_nat (baddr b + bsize b - 8)) = hdr_of b)"
        unfolding b hm header_def by (simp add: m_def)
    qed
    then show ?thesis using g t by simp
  qed
qed

section \<open>Lists of blocks\<close>

lemma flags_from_append:
  "flags_from pa pm (xs @ ys) =
     (flags_from pa pm xs \<and>
      flags_from (if xs = [] then pa else balloc (last xs))
                 (if xs = [] then pm else bsize (last xs) = 16) ys)"
  by (induction xs arbitrary: pa pm) auto

lemma no_adj_free_cons:
  "no_adj_free (c # ys) = ((ys \<noteq> [] \<longrightarrow> balloc c \<or> balloc (hd ys)) \<and> no_adj_free ys)"
  by (cases ys) auto

lemma no_adj_free_append:
  "no_adj_free (xs @ ys) =
     (no_adj_free xs \<and> no_adj_free ys \<and>
      (xs \<noteq> [] \<and> ys \<noteq> [] \<longrightarrow> balloc (last xs) \<or> balloc (hd ys)))"
proof (induction xs)
  case Nil
  then show ?case by simp
next
  case (Cons x xs)
  show ?case
  proof (cases xs)
    case Nil
    then show ?thesis by (cases ys) auto
  next
    case (Cons y zs)
    with Cons.IH show ?thesis by auto
  qed
qed

lemma free_set_simps:
  "free_set [] = {}"
  "free_set (c # xs) = (if balloc c then free_set xs else insert (baddr c) (free_set xs))"
  "free_set (xs @ ys) = free_set xs \<union> free_set ys"
  by (auto simp: free_set_def)

lemma alloc_set_simps:
  "alloc_set [] = {}"
  "alloc_set (c # xs) =
     (if balloc c \<and> bsize c \<noteq> 0 then insert (baddr c, bsize c) (alloc_set xs)
      else alloc_set xs)"
  "alloc_set (xs @ ys) = alloc_set xs \<union> alloc_set ys"
  by (auto simp: alloc_set_def)

lemma payload_bytes_alloc_set:
  "payload_bytes bl = {z. \<exists>(a, n)\<in>alloc_set bl. a + 8 \<le> z \<and> z < a + n}"
  by (auto simp: payload_bytes_def alloc_set_def)

lemma client_rel_alloc_set:
  "client_rel bl L =
     (\<forall>p n. L p = Some n \<longrightarrow>
        (\<exists>(a, z)\<in>alloc_set bl. z \<noteq> 0 \<and> p = of_nat (a + 8) \<and> unat n + 8 \<le> z))"
  unfolding client_rel_def alloc_set_def by (intro all_cong1 imp_cong refl) auto

lemma free_set_alloc:
  assumes "blocks_rel s bl" "c \<in> set bl" "balloc c"
  shows "baddr c \<notin> free_set bl"
proof
  assume "baddr c \<in> free_set bl"
  then obtain d where d: "d \<in> set bl" "\<not> balloc d" "baddr d = baddr c"
    by (auto simp: free_set_def)
  from layout_inj [OF blocks_rel_layout [OF assms(1)] d(1) assms(2) d(3)] d(2) assms(3)
  show False by simp
qed

lemma layout_addr_notin:
  assumes "layout a (xs @ c # ys) e"
  shows "baddr c \<notin> baddr ` set xs" and "baddr c \<notin> baddr ` set ys"
proof -
  show "baddr c \<notin> baddr ` set xs"
  proof
    assume "baddr c \<in> baddr ` set xs"
    then obtain d where d: "d \<in> set xs" "baddr d = baddr c" by auto
    from layout_before [OF assms d(1)] d(2) show False by auto
  qed
  show "baddr c \<notin> baddr ` set ys"
  proof
    assume "baddr c \<in> baddr ` set ys"
    then obtain d where d: "d \<in> set ys" "baddr d = baddr c" by auto
    from layout_after [OF assms d(1)] d(2) show False by auto
  qed
qed

lemma free_set_subset: "free_set xs \<subseteq> baddr ` set xs"
  by (auto simp: free_set_def)

lemma header_not_payload:
  assumes R: "blocks_rel s bl" and c: "c \<in> set bl"
  shows "{baddr c..<baddr c + 8} \<subseteq> - payload_bytes bl"
proof
  fix z assume z: "z \<in> {baddr c..<baddr c + 8}"
  show "z \<in> - payload_bytes bl"
  proof
    assume "z \<in> payload_bytes bl"
    then obtain d where d: "d \<in> set bl" "balloc d" "baddr d + 8 \<le> z" "z < baddr d + bsize d"
      by (auto simp: payload_bytes_def)
    show False
    proof (cases "d = c")
      case True
      with d z show False by simp
    next
      case False
      from layout_apart [OF blocks_rel_layout [OF R] d(1) c False] d z show False by auto
    qed
  qed
qed

section \<open>The last two steps of coalescing\<close>

lemma coalesce_finish:
  assumes R: "blocks_rel t (pre @ m # c # post)"
    and L: "lists_ok t (pre @ m # c # post) (free_set (pre @ m # c # post) - {baddr m})"
    and m: "\<not> balloc m" and c: "balloc c"
    and F1: "flags_from True False (pre @ [m])" and F2: "flags_from True (bsize c = 16) post"
    and N1: "no_adj_free pre" "pre \<noteq> [] \<longrightarrow> balloc (last pre)" and N2: "no_adj_free (c # post)"
  defines "c' \<equiv> c\<lparr>bpa := False, bpm := (bsize m = 16)\<rparr>"
  defines "t1 \<equiv> write_pack t (of_nat (baddr c)) (of_nat (bsize c)) True False (bsize m = 16)"
  defines "t2 \<equiv> insert_free t1 (of_nat (baddr m))"
  shows "blocks_rel t2 (pre @ m # c' # post) \<and>
         lists_ok t2 (pre @ m # c' # post) (free_set (pre @ m # c' # post)) \<and>
         flags_from True False (pre @ m # c' # post) \<and> no_adj_free (pre @ m # c' # post) \<and>
         heap_start t2 = heap_start t \<and> mem_heap t2 = mem_heap t \<and> mem_brk t2 = mem_brk t \<and>
         mem_max_addr t2 = mem_max_addr t \<and>
         touch t t2 (- payload_bytes (pre @ m # c # post)) \<and>
         alloc_set (pre @ m # c' # post) = alloc_set (pre @ m # c # post)"
proof -
  let ?bl = "pre @ m # c # post"
  let ?bl' = "pre @ m # c' # post"
  let ?S = "free_set ?bl - {baddr m}"
  have bl: "?bl = (pre @ [m]) @ c # post" by simp
  have cin: "c \<in> set ?bl" and min: "m \<in> set ?bl'" by simp_all
  have cS: "baddr c \<notin> ?S" using free_set_alloc [OF R cin c] by simp
  have c'f: "baddr c' = baddr c" "bsize c' = bsize c" "balloc c'" using c by (simp_all add: c'_def)
  have hc: "hdr_of c' = pack_all (of_nat (bsize c)) True False (bsize m = 16)"
    using c by (simp add: hdr_of_def c'_def)
  have t1: "t1 = t\<lparr>mem := store64 (mem t) (of_nat (baddr c)) (hdr_of c')\<rparr>"
    by (simp add: t1_def write_pack_hdr_eq hc)
  have g1: "heap_start t1 = heap_start t" "mem_heap t1 = mem_heap t" "mem_brk t1 = mem_brk t"
    "mem_max_addr t1 = mem_max_addr t" "seg_list t1 = seg_list t" "mini_list t1 = mini_list t"
    by (simp_all add: t1)
  have m1: "mem t1 = store64 (mem t) (of_nat (baddr c)) (hdr_of c')" by (simp add: t1)
  from header_rewrite [OF R L bl c'f cS g1 m1]
  have s1: "blocks_rel t1 ?bl'" "lists_ok t1 ?bl' ?S" "touch t t1 {baddr c..<baddr c + 8}"
    by simp_all
  have mS: "baddr m \<notin> ?S" by simp
  from insert_free_ok [OF s1(1,2) min m mS]
  have s2: "blocks_rel t2 ?bl'" "lists_ok t2 ?bl' (insert (baddr m) ?S)"
    "heap_start t2 = heap_start t1" "mem_heap t2 = mem_heap t1" "mem_brk t2 = mem_brk t1"
    "mem_max_addr t2 = mem_max_addr t1" "touch t1 t2 (- payload_bytes ?bl')"
    unfolding t2_def by simp_all
  have fs: "insert (baddr m) ?S = free_set ?bl'"
    using m c c'f by (auto simp: free_set_simps)
  have as: "alloc_set ?bl' = alloc_set ?bl" using c c'f by (simp add: alloc_set_simps)
  have pb: "payload_bytes ?bl' = payload_bytes ?bl" by (simp add: payload_bytes_alloc_set as)
  have fl: "flags_from True False ?bl'"
    using F1 F2 m c'f by (simp add: flags_from_append c'_def)
  have na: "no_adj_free ?bl'"
    using N1 N2 m c c'f by (simp add: no_adj_free_append no_adj_free_cons)
  have "touch t t1 (- payload_bytes ?bl)"
    by (rule touch_mono [OF s1(3) header_not_payload [OF R cin]])
  from touch_trans [OF this s2(7)] have tt: "touch t t2 (- payload_bytes ?bl)"
    by (simp add: pb)
  show ?thesis using s2 fs as fl na tt g1 by simp
qed

section \<open>Coalescing\<close>

lemma layout_adjacent:
  "layout a (pre @ b # n # post) e \<Longrightarrow>
   baddr n = baddr b + bsize b \<and> 16 \<le> bsize b \<and> 16 dvd bsize b"
  by (auto simp: layout_append dest: layout_start)

lemma payload_bytes_cong: "alloc_set bl' = alloc_set bl \<Longrightarrow> payload_bytes bl' = payload_bytes bl"
  by (simp add: payload_bytes_alloc_set)

lemma region_free:
  assumes bl: "bl = pre @ olds @ post"
    and lay: "seg h pre a" "seg a olds e" "layout e post E"
    and fr: "\<forall>d\<in>set olds. \<not> balloc d"
  shows "{a..<e} \<subseteq> - payload_bytes bl"
proof
  fix z assume z: "z \<in> {a..<e}"
  show "z \<in> - payload_bytes bl"
  proof
    assume "z \<in> payload_bytes bl"
    then obtain d where d: "d \<in> set bl" "balloc d" "baddr d + 8 \<le> z" "z < baddr d + bsize d"
      by (auto simp: payload_bytes_def)
    with fr bl consider "d \<in> set pre" | "d \<in> set post" by auto
    then show False
    proof cases
      case 1
      from seg_bounds [OF lay(1) 1] d z show False by auto
    next
      case 2
      from layout_bounds [OF lay(3) 2] d z show False by auto
    qed
  qed
qed

lemma find_prev_ok:
  assumes R: "blocks_rel s bl" and bl: "bl = pre' @ p # b # rest"
    and p: "\<not> balloc p" and pm: "bpm b = (bsize p = 16)"
  shows "find_prev s (of_nat (baddr b)) = of_nat (baddr p)"
proof -
  have pin: "p \<in> set bl" and bin: "b \<in> set bl" using bl by simp_all
  have adj: "baddr b = baddr p + bsize p" "16 \<le> bsize p" "16 dvd bsize p"
    using layout_adjacent [of _ pre' p b rest] blocks_rel_layout [OF R] bl by simp_all
  have lt: "bsize p < 2 ^ 64" using blocks_rel_bounds [OF R pin] by simp
  have X: "(of_nat (baddr b) :: addr) = of_nat (baddr p) + of_nat (bsize p)"
    using adj(1) by simp
  have gm: "get_prev_mini s (of_nat (baddr b)) = (bsize p = 16)"
    using blocks_rel_read(5) [OF R bin] pm by simp
  show ?thesis
  proof (cases "bsize p = 16")
    case True
    have "find_prev s (of_nat (baddr b)) = of_nat (baddr b) - min_block_size"
      using True by (simp add: find_prev_def Let_def gm)
    then show ?thesis using True
      by (simp add: X min_block_size_def dsize_def wsize_def)
  next
    case False
    have ft: "load64 (mem s) (of_nat (baddr p + bsize p - 8)) = hdr_of p"
      using R pin p False unfolding blocks_rel_def by blast
    have "(of_nat (baddr p + bsize p - 8) :: addr) = of_nat (baddr p + bsize p) - of_nat 8"
      using adj(2) by (intro of_nat_diff) simp
    then have fa: "(of_nat (baddr p) :: addr) + of_nat (bsize p) - 8 = of_nat (baddr p + bsize p - 8)"
      by simp
    have es: "extract_size (hdr_of p) = of_nat (bsize p)" by (rule hdr_of_fields(1) [OF adj(3)])
    have nz: "(of_nat (bsize p) :: addr) \<noteq> 0" using lt adj(2) by (simp add: of_nat_eq_0_64)
    have ff: "find_prev_footer (of_nat (baddr b)) = of_nat (baddr p + bsize p - 8)"
      by (simp add: find_prev_footer_def X fa)
    have "find_prev s (of_nat (baddr b)) = footer_to_header s (find_prev_footer (of_nat (baddr b)))"
      using False nz by (simp add: find_prev_def Let_def gm ff ft es)
    also have "\<dots> = of_nat (baddr p + bsize p - 8) + 8 - of_nat (bsize p)"
      by (simp add: footer_to_header_def ff ft es wsize_def)
    also have "\<dots> = of_nat (baddr p)" unfolding fa [symmetric] by simp
    finally show ?thesis .
  qed
qed

lemma coalesce_ok:
  assumes R: "blocks_rel s (pre @ b # n # post)"
    and L: "lists_ok s (pre @ b # n # post) (free_set (pre @ b # n # post) - {baddr b})"
    and b: "\<not> balloc b"
    and F1: "flags_from True False (pre @ [b])" and F2: "flags_from (balloc n) (bsize n = 16) post"
    and N1: "no_adj_free pre" and N2: "no_adj_free (n # post)"
  shows "\<exists>r s' bl'. coalesce_block s (of_nat (baddr b)) = Some (of_nat r, s') \<and>
      blocks_rel s' bl' \<and> lists_ok s' bl' (free_set bl') \<and> flags_from True False bl' \<and>
      no_adj_free bl' \<and>
      heap_start s' = heap_start s \<and> mem_heap s' = mem_heap s \<and> mem_brk s' = mem_brk s \<and>
      mem_max_addr s' = mem_max_addr s \<and>
      touch s s' (- payload_bytes (pre @ b # n # post)) \<and>
      alloc_set bl' = alloc_set (pre @ b # n # post) \<and>
      (\<exists>m\<in>set bl'. baddr m = r \<and> \<not> balloc m \<and> r \<le> baddr b \<and>
                   baddr b + bsize b \<le> r + bsize m)"
proof -
  let ?bl = "pre @ b # n # post"
  let ?X = "of_nat (baddr b) :: addr" and ?N = "of_nat (baddr n) :: addr"
  let ?S = "free_set ?bl - {baddr b}"
  let ?hs = "unat (heap_start s)" and ?E = "unat (mem_brk s) - 8"
  note l = blocks_rel_layout [OF R]
  have bin: "b \<in> set ?bl" and nin: "n \<in> set ?bl" by simp_all
  have adj: "baddr n = baddr b + bsize b" "16 \<le> bsize b" "16 dvd bsize b"
    using layout_adjacent [OF l] by simp_all
  have rd: "get_size s ?X = of_nat (bsize b)" "get_prev_alloc s ?X = bpa b"
    "find_next s ?X = ?N" "is_mini_block s ?X = (bsize b = 16)"
    "get_alloc s ?N = balloc n" "get_size s ?N = of_nat (bsize n)"
    using blocks_rel_read [OF R bin] blocks_rel_read [OF R nin] adj(1) by simp_all
  have Fb: "bpa b = (if pre = [] then True else balloc (last pre))"
    "bpm b = (if pre = [] then False else bsize (last pre) = 16)"
    "flags_from True False pre"
    using F1 by (simp_all add: flags_from_append)
  have final: ?thesis
    if "coalesce_block s ?X = Some (of_nat r, s')" "blocks_rel s' bl'"
      "lists_ok s' bl' (free_set bl')" "flags_from True False bl'" "no_adj_free bl'"
      "heap_start s' = heap_start s" "mem_heap s' = mem_heap s" "mem_brk s' = mem_brk s"
      "mem_max_addr s' = mem_max_addr s" "touch s s' (- payload_bytes ?bl)"
      "alloc_set bl' = alloc_set ?bl"
      "\<exists>m\<in>set bl'. baddr m = r \<and> \<not> balloc m \<and> r \<le> baddr b \<and> baddr b + bsize b \<le> r + bsize m"
    for r s' bl'
    using that by blast
  have post_nn: "\<exists>nn post'. post = nn # post' \<and> balloc nn \<and> baddr nn = baddr n + bsize n \<and>
      16 \<le> bsize n \<and> 16 dvd bsize n" if nf: "\<not> balloc n"
  proof (cases post)
    case Nil
    with l have "layout ?hs ((pre @ [b]) @ [n]) ?E" by simp
    then have "balloc n" unfolding layout_last by simp
    with nf show ?thesis by simp
  next
    case (Cons nn post')
    with N2 nf have "balloc nn" by simp
    moreover have "baddr nn = baddr n + bsize n \<and> 16 \<le> bsize n \<and> 16 dvd bsize n"
      using layout_adjacent [of ?hs "pre @ [b]" n nn post' ?E] l Cons by simp
    ultimately show ?thesis using Cons by simp
  qed
  show ?thesis
  proof (cases "bpa b")
    case pa: True
    have N1b: "pre \<noteq> [] \<longrightarrow> balloc (last pre)" using Fb(1) pa by auto
    show ?thesis
    proof (cases "balloc n")
      case na: True
      have F2': "flags_from True (bsize n = 16) post" using F2 na by simp
      note fin = coalesce_finish [OF R L b na F1 F2' N1 N1b N2]
      have eq: "coalesce_block s ?X = Some (?X,
          insert_free (write_pack s ?N (of_nat (bsize n)) True False (bsize b = 16)) ?X)"
        using pa na by (simp add: coalesce_block_def Let_def rd)
      show ?thesis
        by (rule final [OF eq, of "pre @ b # n\<lparr>bpa := False, bpm := (bsize b = 16)\<rparr> # post"])
          (use fin b in simp_all)
    next
      case nf: False
      from post_nn [OF nf] obtain nn post' where po: "post = nn # post'" "balloc nn"
        "baddr nn = baddr n + bsize n" "16 \<le> bsize n" "16 dvd bsize n" by blast
      let ?NN = "of_nat (baddr nn) :: addr"
      have nS: "baddr n \<in> ?S" using nf adj by (auto simp: free_set_simps)
      from remove_free_ok [OF R L nin nf nS] obtain s1 where
        s1: "remove_free s ?N = Some s1" "blocks_rel s1 ?bl" "lists_ok s1 ?bl (?S - {baddr n})"
          "heap_start s1 = heap_start s" "mem_heap s1 = mem_heap s" "mem_brk s1 = mem_brk s"
          "mem_max_addr s1 = mem_max_addr s" "touch s s1 (- payload_bytes ?bl)"
        by blast
      have rd1: "get_prev_mini s1 ?X = bpm b" using blocks_rel_read(5) [OF s1(2) bin] .
      have bl3: "?bl = pre @ [b, n] @ (nn # post')" by (simp add: po)
      from layout_split3 [of "unat (heap_start s1)" pre "[b, n]" "nn # post'"
          "unat (mem_brk s1) - 8"] blocks_rel_layout [OF s1(2)] bl3
      obtain a e where ae: "seg (unat (heap_start s1)) pre a" "seg a [b, n] e"
        "layout e (nn # post') (unat (mem_brk s1) - 8)" by auto
      have a: "a = baddr b" and e: "e = baddr b + bsize b + bsize n" using ae(2) by auto
      define m where "m = \<lparr>baddr = baddr b, bsize = bsize b + bsize n, balloc = False,
                            bpa = True, bpm = bpm b\<rparr>"
      define s2 where "s2 = write_pack s1 ?X (of_nat (bsize b) + of_nat (bsize n)) False True (bpm b)"
      let ?bl2 = "pre @ m # nn # post'"
      have tot: "(of_nat (bsize b) :: size_t) + of_nat (bsize n) = of_nat (e - a)"
        using a e by simp
      have S2: "x \<notin> baddr ` set [b, n]" if "x \<in> ?S - {baddr n}" for x using that by auto
      have w: "blocks_rel s2 ?bl2" "lists_ok s2 ?bl2 (?S - {baddr n})"
        "heap_start s2 = heap_start s1" "mem_heap s2 = mem_heap s1" "mem_brk s2 = mem_brk s1"
        "mem_max_addr s2 = mem_max_addr s1"
        "touch s1 s2 ({a..<a + 8} \<union> {e - 8..<e})"
        using write_free_block [OF s1(2) s1(3) bl3 _ _ ae S2, of True "bpm b"]
        unfolding s2_def tot m_def by (simp_all add: a e)
      have hn: "header s2 ?N = hdr_of n"
      proof -
        have "load64 (mem s2) (of_nat (baddr n)) = load64 (mem s1) (of_nat (baddr n))"
          by (rule load64_touch [OF w(7)])
            (use a e adj po blocks_rel_bounds [OF R nin] in auto)
        then show ?thesis using blocks_rel_read(1) [OF s1(2) nin] by (simp add: header_def)
      qed
      have fn2: "find_next s2 ?N = ?NN"
        using po(3) by (simp add: find_next_def get_size_def hn hdr_of_fields(1) [OF po(5)])
      have nnin: "nn \<in> set ?bl2" by simp
      have rd2: "get_size s2 ?NN = of_nat (bsize nn)" "get_alloc s2 ?NN = True"
        using blocks_rel_read [OF w(1) nnin] po(2) by simp_all
      have lay0: "layout ?hs ((pre @ [b]) @ n # nn # post') ?E" using l po by simp
      have fs: "free_set ?bl2 - {baddr m} = ?S - {baddr n}"
        using layout_addr_notin [OF lay0] free_set_subset [of pre] free_set_subset [of post']
          b nf po(2) adj po(4)
        by (auto simp: free_set_simps m_def po(1))
      have L2: "lists_ok s2 ?bl2 (free_set ?bl2 - {baddr m})" using w(2) fs by simp
      have mf: "\<not> balloc m" by (simp add: m_def)
      have F1': "flags_from True False (pre @ [m])"
        using F1 pa by (simp add: flags_from_append m_def)
      have F2': "flags_from True (bsize nn = 16) post'" using F2 po by simp
      have N2': "no_adj_free (nn # post')" using N2 po by simp
      note fin = coalesce_finish [OF w(1) L2 mf po(2) F1' F2' N1 N1b N2']
      have m16: "(bsize b + bsize n = 16) = False" using adj po by simp
      define t2 where "t2 = insert_free (write_pack s2 ?NN (of_nat (bsize nn)) True False False) ?X"
      have eq: "coalesce_block s ?X = Some (?X, t2)"
        using pa nf
        by (simp add: coalesce_block_def Let_def rd s1(1) rd1 s2_def [symmetric] fn2 rd2 t2_def)
      have as: "alloc_set ?bl2 = alloc_set ?bl" using b nf by (simp add: alloc_set_simps m_def po)
      have rf: "{a..<e} \<subseteq> - payload_bytes ?bl"
        by (rule region_free [OF bl3 ae]) (use b nf in simp)
      have "touch s1 s2 (- payload_bytes ?bl)"
      proof (rule touch_mono [OF w(7)])
        have "{a..<a + 8} \<union> {e - 8..<e} \<subseteq> {a..<e}" using adj po a e by auto
        then show "{a..<a + 8} \<union> {e - 8..<e} \<subseteq> - payload_bytes ?bl" using rf by blast
      qed
      from touch_trans [OF s1(8) this] have t12: "touch s s2 (- payload_bytes ?bl)" by simp
      have "touch s2 t2 (- payload_bytes ?bl)"
        using fin payload_bytes_cong [OF as] by (simp add: t2_def m16 m_def)
      from touch_trans [OF t12 this] have tt: "touch s t2 (- payload_bytes ?bl)" by simp
      show ?thesis
      proof (rule final [OF eq, of "pre @ m # nn\<lparr>bpa := False, bpm := False\<rparr> # post'"])
        show "touch s t2 (- payload_bytes ?bl)" by (rule tt)
      qed (use fin as s1 w adj in \<open>simp_all add: t2_def m16 m_def\<close>)
    qed
  next
    case npa: False
    have pne: "pre \<noteq> []" using Fb(1) npa by auto
    define p where "p = last pre"
    define pre' where "pre' = butlast pre"
    have pre: "pre = pre' @ [p]" using pne by (simp add: p_def pre'_def)
    have pf: "\<not> balloc p" "bpm b = (bsize p = 16)" using Fb npa pne by (simp_all add: p_def)
    let ?P = "of_nat (baddr p) :: addr"
    have bl2: "?bl = pre' @ p # b # (n # post)" by (simp add: pre)
    have pin: "p \<in> set ?bl" by (simp add: pre)
    have fp: "find_prev s ?X = ?P" by (rule find_prev_ok [OF R bl2 pf])
    have padj: "baddr b = baddr p + bsize p" "16 \<le> bsize p" "16 dvd bsize p"
      using layout_adjacent [of ?hs pre' p b "n # post" ?E] l pre by simp_all
    have pS: "baddr p \<in> ?S" using pf(1) padj by (auto simp: free_set_simps pre)
    from remove_free_ok [OF R L pin pf(1) pS] obtain s1 where
      s1: "remove_free s ?P = Some s1" "blocks_rel s1 ?bl" "lists_ok s1 ?bl (?S - {baddr p})"
        "heap_start s1 = heap_start s" "mem_heap s1 = mem_heap s" "mem_brk s1 = mem_brk s"
        "mem_max_addr s1 = mem_max_addr s" "touch s s1 (- payload_bytes ?bl)"
      by blast
    have Fp: "flags_from True False (pre' @ [p])" using Fb(3) by (simp add: pre)
    have N1': "no_adj_free pre'" "pre' \<noteq> [] \<longrightarrow> balloc (last pre')"
      using N1 pf(1) by (auto simp: pre no_adj_free_append)
    show ?thesis
    proof (cases "balloc n")
      case na: True
      have rd1: "get_size s1 ?P = of_nat (bsize p)" "get_prev_alloc s1 ?P = bpa p"
        "get_prev_mini s1 ?P = bpm p"
        using blocks_rel_read [OF s1(2) pin] by simp_all
      have bl3: "?bl = pre' @ [p, b] @ (n # post)" by (simp add: pre)
      from layout_split3 [of "unat (heap_start s1)" pre' "[p, b]" "n # post"
          "unat (mem_brk s1) - 8"] blocks_rel_layout [OF s1(2)] bl3
      obtain a e where ae: "seg (unat (heap_start s1)) pre' a" "seg a [p, b] e"
        "layout e (n # post) (unat (mem_brk s1) - 8)" by auto
      have a: "a = baddr p" and e: "e = baddr p + bsize p + bsize b" using ae(2) by auto
      define m where "m = \<lparr>baddr = baddr p, bsize = bsize p + bsize b, balloc = False,
                            bpa = bpa p, bpm = bpm p\<rparr>"
      define s2 where "s2 = write_pack s1 ?P (of_nat (bsize b) + of_nat (bsize p)) False
                               (bpa p) (bpm p)"
      let ?bl2 = "pre' @ m # n # post"
      have tot: "(of_nat (bsize b) :: size_t) + of_nat (bsize p) = of_nat (e - a)"
        using a e by simp
      have S2: "x \<notin> baddr ` set [p, b]" if "x \<in> ?S - {baddr p}" for x using that by auto
      have w: "blocks_rel s2 ?bl2" "lists_ok s2 ?bl2 (?S - {baddr p})"
        "heap_start s2 = heap_start s1" "mem_heap s2 = mem_heap s1" "mem_brk s2 = mem_brk s1"
        "mem_max_addr s2 = mem_max_addr s1"
        "touch s1 s2 ({a..<a + 8} \<union> {e - 8..<e})"
        using write_free_block [OF s1(2) s1(3) bl3 _ _ ae S2, of "bpa p" "bpm p"]
        unfolding s2_def tot m_def by (simp_all add: a e)
      have lay0: "layout ?hs ((pre' @ [p]) @ b # n # post) ?E" using l pre by simp
      have fs: "free_set ?bl2 - {baddr m} = ?S - {baddr p}"
        using layout_addr_notin [OF lay0] free_set_subset [of pre'] free_set_subset [of post]
          b na pf(1) padj
        by (auto simp: free_set_simps m_def pre)
      have L2: "lists_ok s2 ?bl2 (free_set ?bl2 - {baddr m})" using w(2) fs by simp
      have mf: "\<not> balloc m" by (simp add: m_def)
      have F1': "flags_from True False (pre' @ [m])"
        using Fp by (simp add: flags_from_append m_def)
      have F2': "flags_from True (bsize n = 16) post" using F2 na by simp
      note fin = coalesce_finish [OF w(1) L2 mf na F1' F2' N1' N2]
      have m16: "(bsize p + bsize b = 16) = False" using adj padj by simp
      define t2 where "t2 = insert_free (write_pack s2 ?N (of_nat (bsize n)) True False False) ?P"
      have eq: "coalesce_block s ?X = Some (?P, t2)"
        using npa na by (simp add: coalesce_block_def Let_def rd fp s1(1) rd1 t2_def s2_def)
      have as: "alloc_set ?bl2 = alloc_set ?bl"
        using b pf(1) by (simp add: alloc_set_simps m_def pre)
      have rf: "{a..<e} \<subseteq> - payload_bytes ?bl"
        by (rule region_free [OF bl3 ae]) (use b pf in simp)
      have "touch s1 s2 (- payload_bytes ?bl)"
      proof (rule touch_mono [OF w(7)])
        have "{a..<a + 8} \<union> {e - 8..<e} \<subseteq> {a..<e}" using adj padj a e by auto
        then show "{a..<a + 8} \<union> {e - 8..<e} \<subseteq> - payload_bytes ?bl" using rf by blast
      qed
      from touch_trans [OF s1(8) this] have t12: "touch s s2 (- payload_bytes ?bl)" by simp
      have "touch s2 t2 (- payload_bytes ?bl)"
        using fin payload_bytes_cong [OF as] by (simp add: t2_def m16 m_def)
      from touch_trans [OF t12 this] have tt: "touch s t2 (- payload_bytes ?bl)" by simp
      show ?thesis
      proof (rule final [OF eq, of "pre' @ m # n\<lparr>bpa := False, bpm := False\<rparr> # post"])
        show "touch s t2 (- payload_bytes ?bl)" by (rule tt)
      qed (use fin as s1 w adj padj in \<open>simp_all add: t2_def m16 m_def\<close>)
    next
      case nf: False
      from post_nn [OF nf] obtain nn post' where po: "post = nn # post'" "balloc nn"
        "baddr nn = baddr n + bsize n" "16 \<le> bsize n" "16 dvd bsize n" by blast
      let ?NN = "of_nat (baddr nn) :: addr"
      have nS: "baddr n \<in> ?S - {baddr p}" using nf adj padj by (auto simp: free_set_simps)
      from remove_free_ok [OF s1(2) s1(3) nin nf nS] obtain s2 where
        s2: "remove_free s1 ?N = Some s2" "blocks_rel s2 ?bl"
          "lists_ok s2 ?bl (?S - {baddr p} - {baddr n})"
          "heap_start s2 = heap_start s1" "mem_heap s2 = mem_heap s1" "mem_brk s2 = mem_brk s1"
          "mem_max_addr s2 = mem_max_addr s1" "touch s1 s2 (- payload_bytes ?bl)"
        by blast
      have rd2: "get_size s2 ?P = of_nat (bsize p)" "get_prev_alloc s2 ?P = bpa p"
        "get_prev_mini s2 ?P = bpm p" "get_size s2 ?N = of_nat (bsize n)"
        using blocks_rel_read [OF s2(2) pin] blocks_rel_read [OF s2(2) nin] by simp_all
      have bl3: "?bl = pre' @ [p, b, n] @ (nn # post')" by (simp add: pre po)
      from layout_split3 [of "unat (heap_start s2)" pre' "[p, b, n]" "nn # post'"
          "unat (mem_brk s2) - 8"] blocks_rel_layout [OF s2(2)] bl3
      obtain a e where ae: "seg (unat (heap_start s2)) pre' a" "seg a [p, b, n] e"
        "layout e (nn # post') (unat (mem_brk s2) - 8)" by auto
      have a: "a = baddr p" and e: "e = baddr p + bsize p + bsize b + bsize n"
        using ae(2) by auto
      define m where "m = \<lparr>baddr = baddr p, bsize = bsize p + bsize b + bsize n, balloc = False,
                            bpa = bpa p, bpm = bpm p\<rparr>"
      define s3 where "s3 = write_pack s2 ?P
          (of_nat (bsize b) + of_nat (bsize p) + of_nat (bsize n)) False (bpa p) (bpm p)"
      let ?bl2 = "pre' @ m # nn # post'"
      have tot: "(of_nat (bsize b) :: size_t) + of_nat (bsize p) + of_nat (bsize n) = of_nat (e - a)"
        using a e by simp
      have ea: "e - a = bsize p + bsize b + bsize n" using a e by simp
      have S2: "x \<notin> baddr ` set [p, b, n]" if "x \<in> ?S - {baddr p} - {baddr n}" for x
        using that by auto
      have w: "blocks_rel s3 ?bl2" "lists_ok s3 ?bl2 (?S - {baddr p} - {baddr n})"
        "heap_start s3 = heap_start s2" "mem_heap s3 = mem_heap s2" "mem_brk s3 = mem_brk s2"
        "mem_max_addr s3 = mem_max_addr s2"
        "touch s2 s3 ({a..<a + 8} \<union> {e - 8..<e})"
        using write_free_block [OF s2(2) s2(3) bl3 _ _ ae S2, of "bpa p" "bpm p"]
        unfolding s3_def tot m_def ea [symmetric] by (simp_all add: a e)
      have hn: "header s3 ?N = hdr_of n"
      proof -
        have "load64 (mem s3) (of_nat (baddr n)) = load64 (mem s2) (of_nat (baddr n))"
          by (rule load64_touch [OF w(7)])
            (use a e adj padj po blocks_rel_bounds [OF R nin] in auto)
        then show ?thesis using blocks_rel_read(1) [OF s2(2) nin] by (simp add: header_def)
      qed
      have fn3: "find_next s3 ?N = ?NN"
        using po(3) by (simp add: find_next_def get_size_def hn hdr_of_fields(1) [OF po(5)])
      have nnin: "nn \<in> set ?bl2" by simp
      have rd3: "get_size s3 ?NN = of_nat (bsize nn)" "get_alloc s3 ?NN = True"
        using blocks_rel_read [OF w(1) nnin] po(2) by simp_all
      have lay0: "layout ?hs ((pre' @ [p]) @ b # n # nn # post') ?E" using l pre po by simp
      have lay1: "layout ?hs ((pre' @ [p, b]) @ n # nn # post') ?E" using l pre po by simp
      have fs: "free_set ?bl2 - {baddr m} = ?S - {baddr p} - {baddr n}"
        using layout_addr_notin [OF lay0] layout_addr_notin [OF lay1]
          free_set_subset [of pre'] free_set_subset [of post'] b nf pf(1) po(2) padj adj po(4)
        by (auto simp: free_set_simps m_def pre po)
      have L2: "lists_ok s3 ?bl2 (free_set ?bl2 - {baddr m})" using w(2) fs by simp
      have mf: "\<not> balloc m" by (simp add: m_def)
      have F1': "flags_from True False (pre' @ [m])"
        using Fp by (simp add: flags_from_append m_def)
      have F2': "flags_from True (bsize nn = 16) post'" using F2 po by simp
      have N2': "no_adj_free (nn # post')" using N2 po by simp
      note fin = coalesce_finish [OF w(1) L2 mf po(2) F1' F2' N1' N2']
      have m16: "(bsize p + bsize b + bsize n = 16) = False" using adj padj po by simp
      define t2 where "t2 = insert_free (write_pack s3 ?NN (of_nat (bsize nn)) True False False) ?P"
      have eq: "coalesce_block s ?X = Some (?P, t2)"
        using npa nf
        by (simp add: coalesce_block_def Let_def rd fp s1(1) s2(1) rd2 s3_def [symmetric]
            fn3 rd3 t2_def)
      have as: "alloc_set ?bl2 = alloc_set ?bl"
        using b pf(1) nf by (simp add: alloc_set_simps m_def pre po)
      have rf: "{a..<e} \<subseteq> - payload_bytes ?bl"
        by (rule region_free [OF bl3 ae]) (use b pf nf in simp)
      have "touch s2 s3 (- payload_bytes ?bl)"
      proof (rule touch_mono [OF w(7)])
        have "{a..<a + 8} \<union> {e - 8..<e} \<subseteq> {a..<e}" using adj padj po a e by auto
        then show "{a..<a + 8} \<union> {e - 8..<e} \<subseteq> - payload_bytes ?bl" using rf by blast
      qed
      from touch_trans [OF touch_trans [OF s1(8) s2(8)] this]
      have t13: "touch s s3 (- payload_bytes ?bl)" by simp
      have "touch s3 t2 (- payload_bytes ?bl)"
        using fin payload_bytes_cong [OF as] by (simp add: t2_def m16 m_def)
      from touch_trans [OF t13 this] have tt: "touch s t2 (- payload_bytes ?bl)" by simp
      show ?thesis
      proof (rule final [OF eq, of "pre' @ m # nn\<lparr>bpa := False, bpm := False\<rparr> # post'"])
        show "touch s t2 (- payload_bytes ?bl)" by (rule tt)
      qed (use fin as s1 s2 w adj padj in \<open>simp_all add: t2_def m16 m_def\<close>)
    qed
  qed
qed

section \<open>Freeing a block\<close>

lemma alloc_set_fst: "(a, z) \<in> alloc_set xs \<Longrightarrow> a \<in> baddr ` set xs"
  by (auto simp: alloc_set_def)

lemma write_prev_alloc_false: "write_prev_alloc s b False = s"
  by (simp add: write_prev_alloc_def Let_def)

lemma layout_not_last:
  assumes "layout a (pre @ c # rest) e" "bsize c \<noteq> 0 \<or> \<not> balloc c"
  shows "rest \<noteq> []"
proof
  assume "rest = []"
  with assms(1) have "bsize c = 0 \<and> balloc c" by (simp add: layout_last)
  with assms(2) show False by simp
qed

lemma client_block:
  assumes R: "blocks_rel s bl" and C: "client_rel bl L" and p: "L bp = Some k"
  shows "\<exists>pre c n post. bl = pre @ c # n # post \<and> balloc c \<and> bsize c \<noteq> 0 \<and>
           bp = of_nat (baddr c + 8) \<and> unat k + 8 \<le> bsize c \<and> bp \<noteq> 0 \<and>
           payload_to_header bp = of_nat (baddr c)"
proof -
  from C p obtain c where c: "c \<in> set bl" "balloc c" "bsize c \<noteq> 0" "bp = of_nat (baddr c + 8)"
    "unat k + 8 \<le> bsize c" unfolding client_rel_def by blast
  from c(1) obtain pre rest where bl: "bl = pre @ c # rest" by (auto dest: split_list)
  have "rest \<noteq> []" using layout_not_last [of _ pre c rest] blocks_rel_layout [OF R] bl c(3) by auto
  then obtain n post where rest: "rest = n # post" by (cases rest) auto
  have bd: "baddr c + 8 < 2 ^ 64" using blocks_rel_bounds [OF R c(1)] c(3) by auto
  have "bp \<noteq> 0" using of_nat_eq_0_64 [OF bd] by (simp add: c(4))
  moreover have "payload_to_header bp = of_nat (baddr c)"
    by (simp add: payload_to_header_def c(4))
  ultimately show ?thesis using bl rest c by blast
qed

lemma mm_free_ok:
  assumes H: "heap_ok s L bl" and p: "L bp = Some k"
  shows "\<exists>s' bl' c. mm_free s bp = Some s' \<and> heap_ok s' (L(bp := None)) bl' \<and>
      heap_start s' = heap_start s \<and> mem_heap s' = mem_heap s \<and> mem_brk s' = mem_brk s \<and>
      mem_max_addr s' = mem_max_addr s \<and> touch s s' (- payload_bytes bl') \<and>
      c \<in> set bl \<and> bp = of_nat (baddr c + 8) \<and>
      alloc_set bl' = alloc_set bl - {(baddr c, bsize c)}"
proof -
  have R: "blocks_rel s bl" and L: "lists_ok s bl (free_set bl)"
    and F: "flags_from True False bl" and N: "no_adj_free bl" and C: "client_rel bl L"
    using H by (simp_all add: heap_ok_def)
  from client_block [OF R C p] obtain pre c n post where
    bl: "bl = pre @ c # n # post" and c: "balloc c" "bsize c \<noteq> 0" "bp = of_nat (baddr c + 8)"
      "unat k + 8 \<le> bsize c" "bp \<noteq> 0" "payload_to_header bp = of_nat (baddr c)" by blast
  let ?X = "of_nat (baddr c) :: addr" and ?N = "of_nat (baddr n) :: addr"
  note l = blocks_rel_layout [OF R]
  have cin: "c \<in> set bl" by (simp add: bl)
  have adj: "baddr n = baddr c + bsize c" "16 \<le> bsize c" "16 dvd bsize c"
    using layout_adjacent [of _ pre c n post] l bl by simp_all
  have rd: "get_size s ?X = of_nat (bsize c)" "get_prev_alloc s ?X = bpa c"
    "get_prev_mini s ?X = bpm c"
    using blocks_rel_read [OF R cin] by simp_all
  define c' where "c' = \<lparr>baddr = baddr c, bsize = bsize c, balloc = False, bpa = bpa c, bpm = bpm c\<rparr>"
  define s1 where "s1 = write_pack s ?X (of_nat (bsize c)) False (bpa c) (bpm c)"
  let ?bl1 = "pre @ c' # n # post"
  have bl3: "bl = pre @ [c] @ (n # post)" by (simp add: bl)
  from layout_split3 [of "unat (heap_start s)" pre "[c]" "n # post" "unat (mem_brk s) - 8"] l bl3
  obtain a e where ae: "seg (unat (heap_start s)) pre a" "seg a [c] e"
    "layout e (n # post) (unat (mem_brk s) - 8)" by auto
  have a: "a = baddr c" and e: "e = baddr c + bsize c" using ae(2) by auto
  have S: "x \<notin> baddr ` set [c]" if "x \<in> free_set bl" for x
    using that free_set_alloc [OF R cin c(1)] by auto
  have w: "blocks_rel s1 ?bl1" "lists_ok s1 ?bl1 (free_set bl)"
    "heap_start s1 = heap_start s" "mem_heap s1 = mem_heap s" "mem_brk s1 = mem_brk s"
    "mem_max_addr s1 = mem_max_addr s"
    "touch s s1 ({a..<a + 8} \<union> {e - 8..<e})"
    using write_free_block [OF R L bl3 _ _ ae S, of "bpa c" "bpm c"]
    unfolding s1_def c'_def by (simp_all add: a e)
  have lay0: "layout (unat (heap_start s)) (pre @ c # n # post) (unat (mem_brk s) - 8)"
    using l bl by simp
  note nin = layout_addr_notin [OF lay0]
  have fs: "free_set ?bl1 - {baddr c'} = free_set bl"
    using nin free_set_subset [of pre] free_set_subset [of "n # post"] c(1)
    by (auto simp: free_set_simps c'_def bl)
  have L1: "lists_ok s1 ?bl1 (free_set ?bl1 - {baddr c'})" using w(2) fs by simp
  have cf: "\<not> balloc c'" by (simp add: c'_def)
  have F1: "flags_from True False (pre @ [c'])" using F by (simp add: bl flags_from_append c'_def)
  have F2: "flags_from (balloc n) (bsize n = 16) post" using F by (simp add: bl flags_from_append)
  have N1: "no_adj_free pre" and N2: "no_adj_free (n # post)"
    using N by (simp_all add: bl no_adj_free_append no_adj_free_cons)
  from coalesce_ok [OF w(1) L1 cf F1 F2 N1 N2] obtain r s' bl' where
    co: "coalesce_block s1 (of_nat (baddr c')) = Some (of_nat r, s')"
      "blocks_rel s' bl'" "lists_ok s' bl' (free_set bl')" "flags_from True False bl'"
      "no_adj_free bl'"
      "heap_start s' = heap_start s1" "mem_heap s' = mem_heap s1" "mem_brk s' = mem_brk s1"
      "mem_max_addr s' = mem_max_addr s1"
      "touch s1 s' (- payload_bytes ?bl1)" "alloc_set bl' = alloc_set ?bl1"
    by blast
  have bc: "baddr c' = baddr c" by (simp add: c'_def)
  have eq: "mm_free s bp = Some s'"
    using c(5) co(1) by (simp add: mm_free_def Let_def c(6) rd s1_def [symmetric]
        write_prev_alloc_false bc)
  have as1: "alloc_set ?bl1 = alloc_set bl - {(baddr c, bsize c)}"
    using nin c(1,2) alloc_set_fst [of "baddr c" "bsize c" pre]
      alloc_set_fst [of "baddr c" "bsize c" "n # post"]
    by (auto simp: alloc_set_simps c'_def bl)
  have as: "alloc_set bl' = alloc_set bl - {(baddr c, bsize c)}" using co(11) as1 by simp
  have pb: "payload_bytes bl' = payload_bytes ?bl1" by (rule payload_bytes_cong [OF co(11)])
  have rf: "{a..<e} \<subseteq> - payload_bytes ?bl1"
  proof -
    have "?bl1 = pre @ [c'] @ (n # post)" by simp
    moreover have "seg a [c'] e" using ae(2) by (simp add: c'_def)
    ultimately show ?thesis using region_free [of ?bl1 pre "[c']" "n # post" _ a e] ae cf by simp
  qed
  have "touch s s1 (- payload_bytes ?bl1)"
  proof (rule touch_mono [OF w(7)])
    have "{a..<a + 8} \<union> {e - 8..<e} \<subseteq> {a..<e}" using a e adj by auto
    then show "{a..<a + 8} \<union> {e - 8..<e} \<subseteq> - payload_bytes ?bl1" using rf by blast
  qed
  from touch_trans [OF this co(10)] have tt: "touch s s' (- payload_bytes bl')"
    by (simp add: pb)
  have cl: "client_rel bl' (L(bp := None))"
    unfolding client_rel_alloc_set
  proof (intro allI impI)
    fix q j assume "(L(bp := None)) q = Some j"
    then have q: "q \<noteq> bp" "L q = Some j" by (auto split: if_splits)
    from C q(2) obtain a' z where az: "(a', z) \<in> alloc_set bl" "z \<noteq> 0" "q = of_nat (a' + 8)"
      "unat j + 8 \<le> z" unfolding client_rel_alloc_set by blast
    have "(a', z) \<noteq> (baddr c, bsize c)" using q(1) az(3) c(3) by auto
    with az as show "\<exists>(a, z)\<in>alloc_set bl'. z \<noteq> 0 \<and> q = of_nat (a + 8) \<and> unat j + 8 \<le> z"
      by blast
  qed
  have "heap_ok s' (L(bp := None)) bl'" using co cl by (simp add: heap_ok_def)
  then show ?thesis
    using eq co(6-9) w(3-6) tt cin c(3) as
    by (intro exI [of _ s'] exI [of _ bl'] exI [of _ c]) simp
qed

section \<open>Adjusted sizes\<close>

lemma word_div16: "(x :: 64 word) div 16 = of_nat (unat x div 16)"
proof -
  have u: "unat (x div 16) = unat x div 16" by (simp add: unat_div)
  have "x div 16 = of_nat (unat (x div 16))" by simp
  also have "\<dots> = of_nat (unat x div 16)" by (simp only: u)
  finally show ?thesis .
qed

lemma round_up_req:
  assumes "req_ok sz" "sz \<noteq> 0"
  shows "round_up (sz + wsize) dsize = of_nat (16 * ((unat sz + 23) div 16))"
    and "16 \<le> 16 * ((unat sz + 23) div 16)"
    and "unat sz + 8 \<le> 16 * ((unat sz + 23) div 16)"
    and "16 * ((unat sz + 23) div 16) < (2 :: nat) ^ 64"
proof -
  let ?n = "unat sz"
  have lt: "?n + 23 < 2 ^ 64" using assms(1) by (simp add: req_ok_def)
  have n1: "1 \<le> ?n" using assms(2) by (simp add: unat_gt_0 Suc_le_eq)
  have "unat sz + unat (23 :: 64 word) < 2 ^ LENGTH(64)" using lt by simp
  then have u: "unat (sz + 23) = ?n + 23" by (simp add: unat_add_lem [THEN iffD1])
  have "round_up (sz + wsize) dsize = 16 * ((sz + 23) div 16)"
    by (simp add: round_up_def dsize_def wsize_def add.assoc)
  also have "\<dots> = 16 * of_nat ((?n + 23) div 16)" by (simp add: word_div16 u)
  also have "\<dots> = of_nat (16 * ((?n + 23) div 16))" by simp
  finally show "round_up (sz + wsize) dsize = of_nat (16 * ((?n + 23) div 16))" .
  have dm: "16 * ((?n + 23) div 16) + (?n + 23) mod 16 = ?n + 23" by simp
  have m: "(?n + 23) mod 16 < 16" by simp
  have "1 \<le> (?n + 23) div 16" using n1 by presburger
  then show "16 \<le> 16 * ((?n + 23) div 16)" by simp
  show "?n + 8 \<le> 16 * ((?n + 23) div 16)" using dm m by linarith
  show "16 * ((?n + 23) div 16) < (2 :: nat) ^ 64" using dm lt by linarith
qed

lemma round_up_multiple:
  assumes "16 dvd M" "M < 2 ^ 64"
  shows "round_up (of_nat M) dsize = of_nat M"
proof -
  from assms(1) obtain k where k: "M = 16 * k" by (auto simp: dvd_def)
  have lt: "M + 15 < 2 ^ 64" using assms(2) k by simp
  have "unat (of_nat M :: 64 word) + unat (15 :: 64 word) < 2 ^ LENGTH(64)"
    using lt assms(2) by (simp add: unat_of_nat64)
  then have u: "unat ((of_nat M :: 64 word) + 15) = M + 15"
    using assms(2) by (simp add: unat_add_lem [THEN iffD1] unat_of_nat64)
  have "(M + 15) div 16 = k" using k by simp
  then have "round_up (of_nat M) dsize = 16 * of_nat k"
    by (simp add: round_up_def dsize_def wsize_def word_div16 u)
  then show ?thesis using k by simp
qed

lemma max_size_nat:
  assumes "A < 2 ^ 64"
  shows "max_size (of_nat A) chunksize = of_nat (max A 4096)"
proof -
  have c: "chunksize = (of_nat 4096 :: 64 word)" by (simp add: chunksize_def)
  have "((of_nat A :: 64 word) > of_nat 4096) = (A > 4096)"
    using of_nat_less64 [of 4096 A] assms by simp
  then show ?thesis unfolding max_size_def c by (auto simp: max_def)
qed

section \<open>Finding a fit\<close>

lemma first_found_in: "first_found xs \<noteq> 0 \<Longrightarrow> first_found xs \<in> set xs"
  by (induction xs) (auto split: if_splits)

lemma descend_in: "descend s c cs \<in> set (c # cs)"
  by (induction cs arbitrary: c) auto

lemma bucket_best_in:
  "bucket_best s asize xs \<noteq> 0 \<Longrightarrow> bucket_best s asize xs \<in> set xs \<and> fits s asize (bucket_best s asize xs)"
proof -
  assume nz: "bucket_best s asize xs \<noteq> 0"
  show ?thesis
  proof (cases "filter (fits s asize) xs")
    case Nil
    with nz show ?thesis by (simp add: bucket_best_def)
  next
    case (Cons c cs)
    then have "bucket_best s asize xs \<in> set (filter (fits s asize) xs)"
      using descend_in [of s c cs] by (simp add: bucket_best_def)
    then show ?thesis by simp
  qed
qed

lemma find_fit_ok:
  assumes R: "blocks_rel s bl" and L: "lists_ok s bl S" and A: "A < 2 ^ 64"
  shows "\<exists>r. find_fit s (of_nat A) = Some r \<and>
           (r = 0 \<or> (\<exists>b\<in>set bl. r = of_nat (baddr b) \<and> \<not> balloc b \<and> baddr b \<in> S \<and> A \<le> bsize b))"
proof -
  from L obtain fls ml where LR: "lists_rel s bl fls ml" and S: "listed_set fls ml = S"
    by (auto simp: lists_ok_def)
  have len: "length fls = LENGTH_seg" "length (seg_list s) = LENGTH_seg"
    using LR by (simp_all add: lists_rel_def)
  have M: "minis_rel s bl ml" using LR by (simp add: lists_rel_def)
  have B: "bucket_rel s bl i (fls ! i)" if "i < LENGTH_seg" for i
    using LR that by (simp add: lists_rel_def)
  have blockof: "\<exists>b\<in>set bl. baddr b = x \<and> bsize b = z \<and> \<not> balloc b" if "free_at bl x z" for x z
    using that by (auto simp: free_at_def)
  show ?thesis
  proof (cases "of_nat A = min_block_size \<and> mini_list s \<noteq> 0")
    case True
    then have A16: "A = 16" using of_nat_inj64 [OF A, of 16]
      by (simp add: min_block_size_def dsize_def wsize_def)
    have ch: "chain (mini_next s) (mini_list s) (map of_nat ml)"
      using M by (simp add: minis_rel_def mini_chain_chain)
    from chain_head [OF ch] True have ne: "ml \<noteq> []" and h: "mini_list s = of_nat (hd ml)"
      by (auto simp: hd_map)
    then have hin: "hd ml \<in> set ml" by simp
    from mini_elem [OF M R hin] blockof obtain b where
      b: "b \<in> set bl" "baddr b = hd ml" "bsize b = 16" "\<not> balloc b" by blast
    have "hd ml \<in> S" using listed_setI(2) [OF hin, of fls] S by simp
    then show ?thesis using True b h A16 by (auto simp: find_fit_def intro!: bexI [of _ b])
  next
    case False
    let ?chs = "map (map of_nat) fls :: addr list list"
    let ?k = "find_class (of_nat A)"
    have la: "list_all2 (seg_chain s) (seg_list s) ?chs"
      using B len by (simp add: list_all2_conv_all_nth bucket_rel_def)
    have lc: "length ?chs = LENGTH_seg" using len by simp
    let ?r = "first_found (map (bucket_best s (of_nat A)) (drop ?k ?chs))"
    have "find_fit s (of_nat A) = find_fit_from s (of_nat A) ?k"
      using False by (auto simp: find_fit_def Let_def simp del: find_fit_from.simps)
    also have "\<dots> = Some ?r" by (rule find_fit_from_chains [OF la lc])
    finally have ff: "find_fit s (of_nat A) = Some ?r" .
    show ?thesis
    proof (cases "?r = 0")
      case True
      with ff show ?thesis by simp
    next
      case nz: False
      from first_found_in [OF nz] obtain ch where
        ch: "ch \<in> set (drop ?k ?chs)" "?r = bucket_best s (of_nat A) ch" by auto
      from ch(1) have "ch \<in> set ?chs" by (rule in_set_dropD)
      then obtain i where i: "i < LENGTH_seg" "ch = map of_nat (fls ! i)"
        using len by (auto simp: in_set_conv_nth)
      from bucket_best_in [of s "of_nat A" ch] nz ch(2)
      have rin: "?r \<in> set ch" and fit: "fits s (of_nat A) ?r" by simp_all
      from rin i obtain x where x: "x \<in> set (fls ! i)" "?r = of_nat x" by auto
      from bucket_elem [OF B [OF i(1)] R x(1)] blockof obtain b where
        b: "b \<in> set bl" "baddr b = x" "\<not> balloc b" by blast
      have xS: "x \<in> S" using listed_setI(1) [of i fls x ml] x(1) i(1) len S by simp
      have lt: "bsize b < 2 ^ 64" using blocks_rel_bounds [OF R b(1)] by simp
      have "of_nat A \<le> (of_nat (bsize b) :: 64 word)"
        using fit x(2) b(2) blocks_rel_read(2) [OF R b(1)] by (simp add: fits_def)
      then have "A \<le> bsize b" using A lt by (simp add: of_nat_le64)
      then show ?thesis using ff x(2) b xS by (auto intro!: bexI [of _ b])
    qed
  qed
qed

section \<open>Marking a block allocated\<close>

lemma pack_or_pa: "pack_all x al pa pm OR prev_alloc_mask = pack_all x al True pm"
  by (simp add: pack_all_def Let_def or.assoc or.commute or.left_commute)

lemma alloc_block_ok:
  assumes R: "blocks_rel s (pre @ b # n # post)" and L: "lists_ok s (pre @ b # n # post) S"
    and bS: "baddr b \<notin> S" and nS: "baddr n \<notin> S" and na: "balloc n"
  defines "b1 \<equiv> b\<lparr>balloc := True\<rparr>"
  defines "n1 \<equiv> n\<lparr>bpa := True\<rparr>"
  defines "s3 \<equiv> write_pack s (of_nat (baddr b)) (of_nat (bsize b)) True (bpa b) (bpm b)"
  defines "s4 \<equiv> write_prev_alloc s3 (of_nat (baddr n)) True"
  shows "blocks_rel s3 (pre @ b1 # n # post) \<and> blocks_rel s4 (pre @ b1 # n1 # post) \<and>
         lists_ok s4 (pre @ b1 # n1 # post) S \<and>
         heap_start s4 = heap_start s \<and> mem_heap s4 = mem_heap s \<and> mem_brk s4 = mem_brk s \<and>
         mem_max_addr s4 = mem_max_addr s \<and>
         touch s s4 ({baddr b..<baddr b + 8} \<union> {baddr n..<baddr n + 8})"
proof -
  have e3: "s3 = s\<lparr>mem := store64 (mem s) (of_nat (baddr b)) (hdr_of b1)\<rparr>"
    by (simp add: s3_def write_pack_hdr_eq hdr_of_def b1_def)
  have g3: "heap_start s3 = heap_start s" "mem_heap s3 = mem_heap s" "mem_brk s3 = mem_brk s"
    "mem_max_addr s3 = mem_max_addr s" "seg_list s3 = seg_list s" "mini_list s3 = mini_list s"
    by (simp_all add: e3)
  have m3: "mem s3 = store64 (mem s) (of_nat (baddr b)) (hdr_of b1)" by (simp add: e3)
  have b1f: "baddr b1 = baddr b" "bsize b1 = bsize b" "balloc b1" by (simp_all add: b1_def)
  have bl: "pre @ b # n # post = pre @ b # (n # post)" by simp
  from header_rewrite [OF R L bl b1f bS g3 m3]
  have r3: "blocks_rel s3 (pre @ b1 # n # post)" "lists_ok s3 (pre @ b1 # n # post) S"
    "touch s s3 {baddr b..<baddr b + 8}" by simp_all
  have nin: "n \<in> set (pre @ b1 # n # post)" by simp
  have hn: "header s3 (of_nat (baddr n)) = hdr_of n" by (rule blocks_rel_read(1) [OF r3(1) nin])
  have hn1: "hdr_of n OR prev_alloc_mask = hdr_of n1"
    by (simp add: hdr_of_def n1_def pack_or_pa)
  have d: "16 dvd bsize n1" using blocks_rel_bounds [OF r3(1) nin] by (simp add: n1_def)
  have al: "extract_alloc (hdr_of n1) = True"
    using hdr_of_fields(2) [OF d] na by (simp add: n1_def)
  have hn': "load64 (mem s3) (of_nat (baddr n)) = hdr_of n" using hn by (simp add: header_def)
  have e4: "s4 = s3\<lparr>mem := store64 (mem s3) (of_nat (baddr n)) (hdr_of n1)\<rparr>"
    by (simp add: s4_def write_prev_alloc_def Let_def set_header_def hn' hn1 get_alloc_def
        header_def load64_store64_same al)
  have g4: "heap_start s4 = heap_start s3" "mem_heap s4 = mem_heap s3" "mem_brk s4 = mem_brk s3"
    "mem_max_addr s4 = mem_max_addr s3" "seg_list s4 = seg_list s3" "mini_list s4 = mini_list s3"
    by (simp_all add: e4)
  have m4: "mem s4 = store64 (mem s3) (of_nat (baddr n)) (hdr_of n1)" by (simp add: e4)
  have n1f: "baddr n1 = baddr n" "bsize n1 = bsize n" "balloc n1" using na by (simp_all add: n1_def)
  have bl': "pre @ b1 # n # post = (pre @ [b1]) @ n # post" by simp
  from header_rewrite [OF r3(1) r3(2) bl' n1f nS g4 m4]
  have r4: "blocks_rel s4 (pre @ b1 # n1 # post)" "lists_ok s4 (pre @ b1 # n1 # post) S"
    "touch s3 s4 {baddr n..<baddr n + 8}" by simp_all
  from touch_trans [OF r3(3) r4(3)] r3 r4 g3 g4 show ?thesis by simp
qed

section \<open>Zeroed allocation\<close>




end
